theory Spec2Isabelle
  imports Main "HOL-Library.Word" "HOL-Library.Sublist"
begin

unbundle bit_operations_syntax

section \<open>The UTF-8 decoder of \<^verbatim>\<open>src/utf8.h\<close>\<close>

subsection \<open>Data\<close>

type_synonym uint8_t = "8 word"
type_synonym char32_t = "32 word"

text \<open>
  \<^verbatim>\<open>enum character_class_t : uint8_t\<close> and \<^verbatim>\<open>enum dfa_state_t : uint8_t\<close>, with
  the enumerators' values. \<^verbatim>\<open>END\<close> is declared equal to \<^verbatim>\<open>BGN\<close>.
\<close>

datatype character_class_t =
  ILL | ASC | CR1 | CR2 | CR3 | L2A | L3A | L3B | L3C | L4A | L4B | L4C

datatype dfa_state_t =
  BGN | ERR | CS1 | CS2 | CS3 | P3A | P3B | P4A | P4B

abbreviation END :: dfa_state_t where
  "END \<equiv> BGN"

fun class_value :: "character_class_t \<Rightarrow> int" where
  "class_value ILL = 0" | "class_value ASC = 1" | "class_value CR1 = 2"
| "class_value CR2 = 3" | "class_value CR3 = 4" | "class_value L2A = 5"
| "class_value L3A = 6" | "class_value L3B = 7" | "class_value L3C = 8"
| "class_value L4A = 9" | "class_value L4B = 10" | "class_value L4C = 11"

fun state_value :: "dfa_state_t \<Rightarrow> int" where
  "state_value BGN = 0" | "state_value ERR = 12"
| "state_value CS1 = 24" | "state_value CS2 = 36"
| "state_value CS3 = 48" | "state_value P3A = 60"
| "state_value P3B = 72" | "state_value P4A = 84"
| "state_value P4B = 96"

subsection \<open>The lookup tables\<close>

text \<open>\<^verbatim>\<open>lookup.initial_state[62]\<close>: the pairs \<^verbatim>\<open>{ code_point, state }\<close>.\<close>

definition initial_state :: "(uint8_t \<times> dfa_state_t) list" where
  "initial_state =
   [ (0x02, CS1), (0x03, CS1), (0x04, CS1), (0x05, CS1),
     (0x06, CS1), (0x07, CS1), (0x08, CS1), (0x09, CS1),
     (0x0A, CS1), (0x0B, CS1), (0x0C, CS1), (0x0D, CS1),
     (0x0E, CS1), (0x0F, CS1), (0x10, CS1), (0x11, CS1),
     (0x12, CS1), (0x13, CS1), (0x14, CS1), (0x15, CS1),
     (0x16, CS1), (0x17, CS1), (0x18, CS1), (0x19, CS1),
     (0x1A, CS1), (0x1B, CS1), (0x1C, CS1), (0x1D, CS1),
     (0x1E, CS1), (0x1F, CS1), (0x00, P3A), (0x01, CS2),
     (0x02, CS2), (0x03, CS2), (0x04, CS2), (0x05, CS2),
     (0x06, CS2), (0x07, CS2), (0x08, CS2), (0x09, CS2),
     (0x0A, CS2), (0x0B, CS2), (0x0C, CS2), (0x0D, P3B),
     (0x0E, CS2), (0x0F, CS2), (0x00, P4A), (0x01, CS3),
     (0x02, CS3), (0x03, CS3), (0x04, P4B), (0xF5, ERR),
     (0xF6, ERR), (0xF7, ERR), (0xF8, ERR), (0xF9, ERR),
     (0xFA, ERR), (0xFB, ERR), (0xFC, ERR), (0xFD, ERR),
     (0xFE, ERR), (0xFF, ERR) ]"

text \<open>\<^verbatim>\<open>lookup.octet_category[256]\<close>.\<close>

definition octet_category :: "character_class_t list" where
  "octet_category =
   [ ASC, ASC, ASC, ASC, ASC, ASC, ASC, ASC, ASC, ASC, ASC, ASC, ASC, ASC, ASC, ASC,
     ASC, ASC, ASC, ASC, ASC, ASC, ASC, ASC, ASC, ASC, ASC, ASC, ASC, ASC, ASC, ASC,
     ASC, ASC, ASC, ASC, ASC, ASC, ASC, ASC, ASC, ASC, ASC, ASC, ASC, ASC, ASC, ASC,
     ASC, ASC, ASC, ASC, ASC, ASC, ASC, ASC, ASC, ASC, ASC, ASC, ASC, ASC, ASC, ASC,
     ASC, ASC, ASC, ASC, ASC, ASC, ASC, ASC, ASC, ASC, ASC, ASC, ASC, ASC, ASC, ASC,
     ASC, ASC, ASC, ASC, ASC, ASC, ASC, ASC, ASC, ASC, ASC, ASC, ASC, ASC, ASC, ASC,
     ASC, ASC, ASC, ASC, ASC, ASC, ASC, ASC, ASC, ASC, ASC, ASC, ASC, ASC, ASC, ASC,
     ASC, ASC, ASC, ASC, ASC, ASC, ASC, ASC, ASC, ASC, ASC, ASC, ASC, ASC, ASC, ASC,
     CR1, CR1, CR1, CR1, CR1, CR1, CR1, CR1, CR1, CR1, CR1, CR1, CR1, CR1, CR1, CR1,
     CR2, CR2, CR2, CR2, CR2, CR2, CR2, CR2, CR2, CR2, CR2, CR2, CR2, CR2, CR2, CR2,
     CR3, CR3, CR3, CR3, CR3, CR3, CR3, CR3, CR3, CR3, CR3, CR3, CR3, CR3, CR3, CR3,
     CR3, CR3, CR3, CR3, CR3, CR3, CR3, CR3, CR3, CR3, CR3, CR3, CR3, CR3, CR3, CR3,
     ILL, ILL, L2A, L2A, L2A, L2A, L2A, L2A, L2A, L2A, L2A, L2A, L2A, L2A, L2A, L2A,
     L2A, L2A, L2A, L2A, L2A, L2A, L2A, L2A, L2A, L2A, L2A, L2A, L2A, L2A, L2A, L2A,
     L3A, L3B, L3B, L3B, L3B, L3B, L3B, L3B, L3B, L3B, L3B, L3B, L3B, L3C, L3B, L3B,
     L4A, L4B, L4B, L4B, L4C, ILL, ILL, ILL, ILL, ILL, ILL, ILL, ILL, ILL, ILL, ILL ]"

text \<open>\<^verbatim>\<open>lookup.state_transition[108]\<close>, one row of twelve entries per state.\<close>

definition state_transition :: "dfa_state_t list" where
  "state_transition =
   [ ERR, END, ERR, ERR, ERR, CS1, P3A, CS2, P3B, P4A, CS3, P4B,
     ERR, ERR, ERR, ERR, ERR, ERR, ERR, ERR, ERR, ERR, ERR, ERR,
     ERR, ERR, END, END, END, ERR, ERR, ERR, ERR, ERR, ERR, ERR,
     ERR, ERR, CS1, CS1, CS1, ERR, ERR, ERR, ERR, ERR, ERR, ERR,
     ERR, ERR, CS2, CS2, CS2, ERR, ERR, ERR, ERR, ERR, ERR, ERR,
     ERR, ERR, ERR, ERR, CS1, ERR, ERR, ERR, ERR, ERR, ERR, ERR,
     ERR, ERR, CS1, CS1, ERR, ERR, ERR, ERR, ERR, ERR, ERR, ERR,
     ERR, ERR, ERR, CS2, CS2, ERR, ERR, ERR, ERR, ERR, ERR, ERR,
     ERR, ERR, CS2, ERR, ERR, ERR, ERR, ERR, ERR, ERR, ERR, ERR ]"

subsection \<open>Undefined behaviour as a value\<close>

text \<open>
  The C++ code has no checked access: dereferencing the input iterator at or past
  \<^verbatim>\<open>end\<close> and indexing a table outside its extent are undefined behaviour. The model
  makes each of them a fault value, one constructor per place, so that their absence
  is a theorem about \<open>decode\<close> and not an assumption of the embedding.
\<close>

datatype fault =
  InputOutOfRange
| InitialStateOutOfBounds
| OctetCategoryOutOfBounds
| StateTransitionOutOfBounds

text \<open>An array subscript \<^verbatim>\<open>table[i]\<close> with the index an \<^verbatim>\<open>int\<close> after promotion.\<close>

definition subscript :: "fault \<Rightarrow> 'a list \<Rightarrow> int \<Rightarrow> fault + 'a" where
  "subscript f table i =
     (if 0 \<le> i \<and> i < int (length table) then Inr (table ! nat i) else Inl f)"

subsection \<open>The helper functions of \<^verbatim>\<open>namespace detail\<close>\<close>

text \<open>
  An input iterator is an index into the sequence of code units \<open>bs\<close>; the output
  iterator is the list of code points written so far. The parameter \<^verbatim>\<open>end\<close> and the
  function \<^verbatim>\<open>write\<close> are \<open>endp\<close> and \<open>write_out\<close> here, their names being keywords of
  Isabelle.
\<close>

definition check :: "nat \<Rightarrow> nat \<Rightarrow> bool" where
  "check input endp = (input \<noteq> endp)"

definition read :: "uint8_t list \<Rightarrow> nat \<Rightarrow> fault + (uint8_t \<times> nat)" where
  "read bs input =
     (if input < length bs then Inr (bs ! input, input + 1) else Inl InputOutOfRange)"

definition write_out :: "char32_t list \<Rightarrow> char32_t \<Rightarrow> char32_t list" where
  "write_out output v = output @ [v]"

subsection \<open>\<^verbatim>\<open>utf8::decode\<close>\<close>

text \<open>
  The inner loop \<^verbatim>\<open>while (state > ERR)\<close>: it returns the iterator, the code point
  and the state it leaves with.
\<close>

function cont_loop ::
  "uint8_t list \<Rightarrow> nat \<Rightarrow> nat \<Rightarrow> char32_t \<Rightarrow> dfa_state_t
     \<Rightarrow> fault + (nat \<times> char32_t \<times> dfa_state_t)" where
  "cont_loop bs input endp code_point state =
     (if state_value state > state_value ERR then
        if check input endp then
          (case read bs input of
             Inl f \<Rightarrow> Inl f
           | Inr (octet, input') \<Rightarrow>
               let code_point' = push_bit 6 code_point OR ucast (octet AND 0x3F) in
               (case subscript OctetCategoryOutOfBounds octet_category (uint octet) of
                  Inl f \<Rightarrow> Inl f
                | Inr category \<Rightarrow>
                    (case subscript StateTransitionOutOfBounds state_transition
                            (state_value state + class_value category) of
                       Inl f \<Rightarrow> Inl f
                     | Inr state' \<Rightarrow> cont_loop bs input' endp code_point' state')))
        else cont_loop bs input endp code_point ERR
      else Inr (input, code_point, state))"
  by pat_completeness auto
termination
  by (relation "measures [\<lambda>(bs, input, endp, code_point, state). length bs - input,
                          \<lambda>(bs, input, endp, code_point, state). nat (state_value state)]")
     (auto simp: read_def split: if_splits)

declare cont_loop.simps [simp del]

lemma cont_loop_advances:
  "cont_loop bs input endp code_point state = Inr (input', code_point', state')
     \<Longrightarrow> input \<le> input'"
proof (induction bs input endp code_point state rule: cont_loop.induct)
  case (1 bs input endp code_point state)
  show ?case
  proof (cases "state_value state > state_value ERR")
    case False
    with "1.prems" show ?thesis by (simp add: cont_loop.simps [of bs input])
  next
    case running: True
    show ?thesis
    proof (cases "check input endp")
      case False
      with running "1.prems" "1.IH"(2) show ?thesis
        by (simp add: cont_loop.simps [of bs input endp code_point state])
    next
      case True
      with running "1.prems" "1.IH"(1) show ?thesis
        by (subst (asm) cont_loop.simps)
           (fastforce simp: read_def Let_def split: if_splits sum.splits prod.splits)
    qed
  qed
qed

text \<open>The outer loop; it returns the iterator and the output.\<close>

function decode ::
  "uint8_t list \<Rightarrow> nat \<Rightarrow> nat \<Rightarrow> char32_t list \<Rightarrow> fault + (nat \<times> char32_t list)" where
  "decode bs input endp output =
     (if check input endp then
        (case read bs input of
           Inl f \<Rightarrow> Inl f
         | Inr (octet, input1) \<Rightarrow>
             if octet < 0x80 then decode bs input1 endp (write_out output (ucast octet))
             else if octet < 0xC2 then Inr (input1, output)
             else
               (case subscript InitialStateOutOfBounds initial_state (uint octet - 0xC2) of
                  Inl f \<Rightarrow> Inl f
                | Inr (tmp, state) \<Rightarrow>
                    (case cont_loop bs input1 endp (ucast tmp) state of
                       Inl f \<Rightarrow> Inl f
                     | Inr (input2, code_point, state') \<Rightarrow>
                         if state' = ERR then Inr (input2, output)
                         else decode bs input2 endp (write_out output code_point))))
      else Inr (endp, output))"
  by pat_completeness auto
termination
proof (relation "measure (\<lambda>(bs, input, endp, output). length bs - input)")
  show "wf (measure (\<lambda>(bs, input, endp, output). length bs - input))" by simp
next
  fix bs and input endp :: nat and out :: "char32_t list" and x2 octet input1
  assume "read bs input = Inr x2" "(octet, input1) = x2"
  then show "((bs, input1, endp, write_out out (ucast octet)), bs, input, endp, out)
      \<in> measure (\<lambda>(bs, input, endp, output). length bs - input)"
    by (auto simp: read_def split: if_splits)
next
  fix bs and input endp :: nat and out :: "char32_t list"
    and x2 octet input1 x2a and tmp :: uint8_t and state x2b input2 y code_point state'
  assume "read bs input = Inr x2" "(octet, input1) = x2"
    and "cont_loop bs input1 endp (ucast tmp) state = Inr x2b"
    and "(input2, y) = x2b" "(code_point, state') = y"
  then have "input < length bs" "input1 = input + 1" "input1 \<le> input2"
    by (auto simp: read_def split: if_splits dest: cont_loop_advances)
  then show "((bs, input2, endp, write_out out code_point), bs, input, endp, out)
      \<in> measure (\<lambda>(bs, input, endp, output). length bs - input)"
    by simp
qed

declare decode.simps [simp del]

section \<open>Scalar values and the reference encoder\<close>

text \<open>
  The repository has no encoder. The claims about round trips speak of a correct
  reference UTF-8 encoder, which is the encoding of the Unicode standard (bit
  distribution by the length of the sequence): it is written here, over the code point
  as a natural number, to state those claims. \<open>scalar_value\<close> is the range of Unicode
  scalar values: up to \<^verbatim>\<open>0x10FFFF\<close>, the surrogates \<^verbatim>\<open>0xD800\<close> to \<^verbatim>\<open>0xDFFF\<close> left out.
\<close>

definition scalar_value :: "nat \<Rightarrow> bool" where
  "scalar_value v \<longleftrightarrow> v \<le> 0x10FFFF \<and> \<not> (0xD800 \<le> v \<and> v \<le> 0xDFFF)"

definition utf8_encode :: "nat \<Rightarrow> uint8_t list" where
  "utf8_encode v =
     (if v < 0x80 then [of_nat v]
      else if v < 0x800 then
        [of_nat (0xC0 + v div 0x40), of_nat (0x80 + v mod 0x40)]
      else if v < 0x10000 then
        [of_nat (0xE0 + v div 0x1000), of_nat (0x80 + v div 0x40 mod 0x40),
         of_nat (0x80 + v mod 0x40)]
      else
        [of_nat (0xF0 + v div 0x40000), of_nat (0x80 + v div 0x1000 mod 0x40),
         of_nat (0x80 + v div 0x40 mod 0x40), of_nat (0x80 + v mod 0x40)])"

section \<open>Well-formed UTF-8, as the Unicode standard tabulates it\<close>

text \<open>
  The definitions of this section are not taken from the source. They restate the
  table of well-formed UTF-8 code unit sequences as a scanner over a list of code
  units; the decoder is proved equal to it below (\<open>decode_scan_all\<close>), and the
  properties of the decoder are then read off the scanner.

  \<open>lead b\<close> gives, for the value of a leading code unit, the number of trailing
  code units, the range allowed for the first of them and the payload bits of the
  leader. \<open>trail\<close> reads the trailing code units, \<open>c\<close> counting the code units read;
  \<open>scan_one\<close> reads one sequence and says whether it yields a code point (and after
  how many code units), is malformed at the code unit read last, or is cut by the end
  of the input. \<open>scan\<close> repeats \<open>scan_one\<close> up to the first sequence that yields no
  code point and returns the number of code units read and the code points.
\<close>

datatype outcome = Emitted nat nat | Malformed nat | Truncated nat

fun trail :: "nat \<Rightarrow> nat \<Rightarrow> nat \<Rightarrow> nat \<Rightarrow> nat \<Rightarrow> uint8_t list \<Rightarrow> outcome" where
  "trail 0 lo hi cp c xs = Emitted cp c"
| "trail (Suc n) lo hi cp c [] = Truncated c"
| "trail (Suc n) lo hi cp c (b # xs) =
     (if lo \<le> unat b \<and> unat b \<le> hi
      then trail n 0x80 0xBF (64 * cp + unat b mod 64) (Suc c) xs
      else Malformed (Suc c))"

definition lead :: "nat \<Rightarrow> (nat \<times> nat \<times> nat \<times> nat) option" where
  "lead b =
     (if b < 0xC2 then None
      else if b < 0xE0 then Some (1, 0x80, 0xBF, b - 0xC0)
      else if b = 0xE0 then Some (2, 0xA0, 0xBF, 0)
      else if b = 0xED then Some (2, 0x80, 0x9F, 0x0D)
      else if b < 0xF0 then Some (2, 0x80, 0xBF, b - 0xE0)
      else if b = 0xF0 then Some (3, 0x90, 0xBF, 0)
      else if b < 0xF4 then Some (3, 0x80, 0xBF, b - 0xF0)
      else if b = 0xF4 then Some (3, 0x80, 0x8F, 4)
      else None)"

fun scan_one :: "uint8_t list \<Rightarrow> outcome" where
  "scan_one [] = Truncated 0"
| "scan_one (b # xs) =
     (if unat b < 0x80 then Emitted (unat b) 1
      else case lead (unat b) of
             None \<Rightarrow> Malformed 1
           | Some (n, lo, hi, cp) \<Rightarrow> trail n lo hi cp 1 xs)"

text \<open>
  What a state of the automaton still expects: the number of trailing code units and
  the range allowed for the next one.
\<close>

fun pending :: "dfa_state_t \<Rightarrow> nat \<times> nat \<times> nat" where
  "pending CS1 = (1, 0x80, 0xBF)"
| "pending CS2 = (2, 0x80, 0xBF)"
| "pending CS3 = (3, 0x80, 0xBF)"
| "pending P3A = (2, 0xA0, 0xBF)"
| "pending P3B = (2, 0x80, 0x9F)"
| "pending P4A = (3, 0x90, 0xBF)"
| "pending P4B = (3, 0x80, 0x8F)"
| "pending BGN = (0, 0x80, 0xBF)"
| "pending ERR = (0, 0x80, 0xBF)"

lemma trail_consumed:
  "trail n lo hi cp c xs = Emitted v k \<Longrightarrow> k = c + n \<and> n \<le> length xs"
  by (induction n lo hi cp c xs rule: trail.induct) (auto split: if_splits)

lemma trail_rejected:
  "trail n lo hi cp c xs = Malformed k \<Longrightarrow> c < k \<and> k \<le> c + length xs"
  by (induction n lo hi cp c xs rule: trail.induct) (auto split: if_splits)

lemma trail_truncated:
  "trail n lo hi cp c xs = Truncated k \<Longrightarrow> k = c + length xs"
  by (induction n lo hi cp c xs rule: trail.induct) (auto split: if_splits)

lemma scan_one_emitted:
  "scan_one xs = Emitted v k \<Longrightarrow> 0 < k \<and> k \<le> length xs"
  by (cases xs) (auto split: if_splits option.splits dest: trail_consumed)

lemma scan_one_malformed:
  "scan_one xs = Malformed k \<Longrightarrow> 0 < k \<and> k \<le> length xs"
  by (cases xs) (auto split: if_splits option.splits dest: trail_rejected)

lemma scan_one_truncated:
  "scan_one xs = Truncated k \<Longrightarrow> k = length xs"
  by (cases xs) (auto split: if_splits option.splits dest: trail_truncated)

function scan :: "uint8_t list \<Rightarrow> nat \<times> nat list" where
  "scan xs =
     (case scan_one xs of
        Emitted v k \<Rightarrow> (k + fst (scan (drop k xs)), v # snd (scan (drop k xs)))
      | Malformed k \<Rightarrow> (k, [])
      | Truncated k \<Rightarrow> (k, []))"
  by pat_completeness auto
termination
  by (relation "measure length") (auto dest: scan_one_emitted)

declare scan.simps [simp del]

section \<open>The tables in closed form\<close>

lemma length_octet_category: "length octet_category = 256"
  by (simp add: octet_category_def)
lemma length_initial_state: "length initial_state = 62"
  by (simp add: initial_state_def)
lemma length_state_transition: "length state_transition = 108"
  by (simp add: state_transition_def)

lemma octet_category_map:
  "octet_category = map (\<lambda>n::nat. 
     if n < 0x80 then ASC else if n < 0x90 then CR1 else if n < 0xA0 then CR2
      else if n < 0xC0 then CR3 else if n < 0xC2 then ILL else if n < 0xE0 then L2A
      else if n = 0xE0 then L3A else if n = 0xED then L3C else if n < 0xF0 then L3B
      else if n = 0xF0 then L4A else if n < 0xF4 then L4B else if n = 0xF4 then L4C else ILL) [0..<256]"
  by code_simp

lemma octet_category_nth:
  "n < 256 \<Longrightarrow> octet_category ! n =
     (if n < 0x80 then ASC else if n < 0x90 then CR1 else if n < 0xA0 then CR2
      else if n < 0xC0 then CR3 else if n < 0xC2 then ILL else if n < 0xE0 then L2A
      else if n = 0xE0 then L3A else if n = 0xED then L3C else if n < 0xF0 then L3B
      else if n = 0xF0 then L4A else if n < 0xF4 then L4B else if n = 0xF4 then L4C else ILL)"
  by (subst octet_category_map) (simp only: nth_map_upt add_0 minus_nat.diff_0)

lemma initial_state_map:
  "initial_state = map (\<lambda>n::nat.
     let b = n + 0xC2 in
     if b < 0xE0 then (of_nat (b - 0xC0), CS1)
     else if b = 0xE0 then (0, P3A)
     else if b = 0xED then (0x0D, P3B)
     else if b < 0xF0 then (of_nat (b - 0xE0), CS2)
     else if b = 0xF0 then (0, P4A)
     else if b < 0xF4 then (of_nat (b - 0xF0), CS3)
     else if b = 0xF4 then (4, P4B)
     else (of_nat b, ERR)) [0..<62]"
  by code_simp

lemma unat_lt_256: "unat (b :: uint8_t) < 256"
  using unsigned_less [of b, where 'a = nat] by simp

lemma subscript_octet_category:
  "subscript OctetCategoryOutOfBounds octet_category (uint (octet :: uint8_t))
     = Inr (octet_category ! unat octet)"
  using uint_lt2p [of octet] by (simp add: subscript_def length_octet_category)

lemma subscript_state_transition:
  "subscript StateTransitionOutOfBounds state_transition (state_value s + class_value c)
     = Inr (state_transition ! nat (state_value s + class_value c))"
  by (cases s; cases c) (simp_all add: subscript_def length_state_transition)

lemma row_CS1:
  "state_transition ! nat (state_value CS1 + class_value c)
     = (if c = CR1 \<or> c = CR2 \<or> c = CR3 then END else ERR)"
  by (cases c) (simp_all add: state_transition_def)
lemma row_CS2:
  "state_transition ! nat (state_value CS2 + class_value c)
     = (if c = CR1 \<or> c = CR2 \<or> c = CR3 then CS1 else ERR)"
  by (cases c) (simp_all add: state_transition_def)
lemma row_CS3:
  "state_transition ! nat (state_value CS3 + class_value c)
     = (if c = CR1 \<or> c = CR2 \<or> c = CR3 then CS2 else ERR)"
  by (cases c) (simp_all add: state_transition_def)
lemma row_P3A:
  "state_transition ! nat (state_value P3A + class_value c)
     = (if c = CR3 then CS1 else ERR)"
  by (cases c) (simp_all add: state_transition_def)
lemma row_P3B:
  "state_transition ! nat (state_value P3B + class_value c)
     = (if c = CR1 \<or> c = CR2 then CS1 else ERR)"
  by (cases c) (simp_all add: state_transition_def)
lemma row_P4A:
  "state_transition ! nat (state_value P4A + class_value c)
     = (if c = CR2 \<or> c = CR3 then CS2 else ERR)"
  by (cases c) (simp_all add: state_transition_def)
lemma row_P4B:
  "state_transition ! nat (state_value P4B + class_value c)
     = (if c = CR1 then CS2 else ERR)"
  by (cases c) (simp_all add: state_transition_def)

lemmas rows = row_CS1 row_CS2 row_CS3 row_P3A row_P3B row_P4A row_P4B

lemma category_CR1:
  "octet_category ! unat (b :: uint8_t) = CR1 \<longleftrightarrow> 0x80 \<le> unat b \<and> unat b \<le> 0x8F"
  using unat_lt_256 [of b] by (simp add: octet_category_nth)

lemma category_CR2:
  "octet_category ! unat (b :: uint8_t) = CR2 \<longleftrightarrow> 0x90 \<le> unat b \<and> unat b \<le> 0x9F"
  using unat_lt_256 [of b] by (simp add: octet_category_nth)

lemma category_CR3:
  "octet_category ! unat (b :: uint8_t) = CR3 \<longleftrightarrow> 0xA0 \<le> unat b \<and> unat b \<le> 0xBF"
  using unat_lt_256 [of b] by (simp add: octet_category_nth)

lemmas categories = category_CR1 category_CR2 category_CR3

lemma transition_pending:
  assumes "state_value s > 12" and "pending s = (Suc n, lo, hi)"
  shows "state_transition ! nat (state_value s + class_value (octet_category ! unat (b :: uint8_t)))
     = (if lo \<le> unat b \<and> unat b \<le> hi
        then (case n of 0 \<Rightarrow> END | Suc 0 \<Rightarrow> CS1 | _ \<Rightarrow> CS2) else ERR)"
  using assms by (cases s) (simp_all only: rows categories, auto)

section \<open>The loops against the scanner\<close>

lemma nat_or_low: "push_bit 6 (n::nat) OR take_bit 6 m = 64 * n + m mod 64"
proof -
  have "push_bit 6 n AND take_bit 6 m = 0"
    by (rule bit_eqI) (auto simp: bit_simps)
  then have "push_bit 6 n + take_bit 6 m = push_bit 6 n OR take_bit 6 m"
    by (rule disjunctive_add_eq_or)
  then show ?thesis by (simp add: push_bit_eq_mult take_bit_eq_mod)
qed

lemma unat_accumulate:
  fixes cp :: char32_t and octet :: uint8_t
  assumes "unat cp < 2 ^ 26"
  shows "unat (push_bit 6 cp OR ucast (octet AND 0x3F)) = 64 * unat cp + unat octet mod 64"
proof -
  have m: "octet AND 0x3F = take_bit 6 octet"
    by (simp add: take_bit_eq_mask mask_eq_exp_minus_1)
  have a: "unat (octet AND 0x3F) = take_bit 6 (unat octet)"
    by (simp only: m unsigned_take_bit_eq)
  have b: "unat (push_bit 6 cp) = push_bit 6 (unat cp)"
  proof -
    have "unat (push_bit 6 cp) = take_bit 32 (push_bit 6 (unat cp))"
      by (simp only: unsigned_push_bit_eq) simp
    also have "\<dots> = push_bit 6 (unat cp)"
      using assms by (simp add: take_bit_nat_eq_self_iff push_bit_eq_mult)
    finally show ?thesis .
  qed
  have c: "unat (ucast (octet AND 0x3F) :: char32_t) = take_bit 6 (unat octet)"
    by (simp only: unsigned_ucast_eq a take_bit_take_bit) simp
  show ?thesis
    by (simp only: unsigned_or_eq b c nat_or_low)
qed

lemma cont_loop_stop:
  "\<not> state_value s > 12 \<Longrightarrow> cont_loop bs i e cp s = Inr (i, cp, s)"
  by (simp add: cont_loop.simps [of bs i e cp s])

lemma cont_loop_eof:
  "state_value s > 12 \<Longrightarrow> cont_loop bs e e cp s = Inr (e, cp, ERR)"
  by (simp add: cont_loop.simps [of bs e e cp s] cont_loop.simps [of bs e e cp ERR] check_def)

lemma cont_loop_step:
  "state_value s > 12 \<Longrightarrow> i < length bs \<Longrightarrow> i \<noteq> e \<Longrightarrow>
     cont_loop bs i e cp s =
       cont_loop bs (Suc i) e (push_bit 6 cp OR ucast (bs ! i AND 0x3F))
         (state_transition ! nat (state_value s + class_value (octet_category ! unat (bs ! i))))"
  by (simp add: cont_loop.simps [of bs i e cp s] check_def read_def
        subscript_octet_category subscript_state_transition)

lemma pending_le_3: "pending s = (n, lo, hi) \<Longrightarrow> n \<le> 3"
  by (cases s) auto

lemma pending_next:
  "m \<le> 2 \<Longrightarrow> s' = (case m of 0 \<Rightarrow> END | Suc 0 \<Rightarrow> CS1 | _ \<Rightarrow> CS2) \<Longrightarrow>
     pending s' = (m, 0x80, 0xBF) \<and> (m = 0 \<longrightarrow> s' = END) \<and> (0 < m \<longrightarrow> state_value s' > 12)"
  by (auto split: nat.splits)

lemma cont_loop_trail:
  assumes "pending s = (n, lo, hi)" and "n = 0 \<longrightarrow> s = END" and "0 < n \<longrightarrow> state_value s > 12"
    and "i \<le> length bs" and "(unat cp + 1) * 64 ^ n \<le> 2 ^ 32"
  shows "case trail n lo hi (unat cp) c (drop i bs) of
           Emitted v k \<Rightarrow> c \<le> k \<and> i + (k - c) \<le> length bs \<and> k - c = n \<and>
             (\<exists>cp'. unat cp' = v \<and> cont_loop bs i (length bs) cp s = Inr (i + (k - c), cp', END))
         | Malformed k \<Rightarrow> c < k \<and> i + (k - c) \<le> length bs \<and>
             (\<exists>cp'. cont_loop bs i (length bs) cp s = Inr (i + (k - c), cp', ERR))
         | Truncated k \<Rightarrow> k = c + (length bs - i) \<and>
             (\<exists>cp'. cont_loop bs i (length bs) cp s = Inr (length bs, cp', ERR))"
  using assms
proof (induction n arbitrary: s lo hi i cp c)
  case 0
  then show ?case by (simp add: cont_loop_stop)
next
  case (Suc m)
  then have live: "state_value s > 12" and m2: "m \<le> 2"
    using pending_le_3 [of s "Suc m" lo hi] by auto
  show ?case
  proof (cases "i = length bs")
    case True
    with live show ?thesis by (simp add: cont_loop_eof)
  next
    case False
    with Suc.prems have i: "i < length bs" by simp
    define b where "b = bs ! i"
    have drop: "drop i bs = b # drop (Suc i) bs"
      using i by (simp add: b_def Cons_nth_drop_Suc)
    define s' where "s' = state_transition ! nat (state_value s + class_value (octet_category ! unat b))"
    define cp' where "cp' = push_bit 6 cp OR ucast (b AND 0x3F)"
    have step: "cont_loop bs i (length bs) cp s = cont_loop bs (Suc i) (length bs) cp' s'"
      using cont_loop_step [OF live i False] by (simp add: s'_def cp'_def b_def)
    have s'_eq: "s' = (if lo \<le> unat b \<and> unat b \<le> hi
        then (case m of 0 \<Rightarrow> END | Suc 0 \<Rightarrow> CS1 | _ \<Rightarrow> CS2) else ERR)"
      unfolding s'_def using live Suc.prems(1) by (rule transition_pending)
    show ?thesis
    proof (cases "lo \<le> unat b \<and> unat b \<le> hi")
      case False
      then have "s' = ERR" unfolding s'_eq by (rule if_not_P)
      then have "cont_loop bs i (length bs) cp s = Inr (Suc i, cp', ERR)"
        by (simp add: step cont_loop_stop)
      with False i show ?thesis by (auto simp: drop)
    next
      case True
      then have s'_ok: "s' = (case m of 0 \<Rightarrow> END | Suc 0 \<Rightarrow> CS1 | _ \<Rightarrow> CS2)"
        unfolding s'_eq by (rule if_P)
      note nx = pending_next [OF m2 s'_ok]
      have "(unat cp + 1) * 64 \<le> (unat cp + 1) * 64 ^ Suc m"
        by (rule mult_le_mono2) (simp add: self_le_power)
      with Suc.prems(5) have small: "unat cp < 2 ^ 26" by simp
      have cp'_val: "unat cp' = 64 * unat cp + unat b mod 64"
        unfolding cp'_def using small by (rule unat_accumulate)
      have "unat b mod 64 < 64" by simp
      then have "unat cp' + 1 \<le> 64 * (unat cp + 1)"
        unfolding cp'_val by simp
      then have "(unat cp' + 1) * 64 ^ m \<le> 64 * (unat cp + 1) * 64 ^ m"
        by (rule mult_le_mono1)
      also have "64 * (unat cp + 1) * 64 ^ m = (unat cp + 1) * 64 ^ Suc m"
        by (simp add: algebra_simps)
      also note Suc.prems(5)
      finally have bound: "(unat cp' + 1) * 64 ^ m \<le> 2 ^ 32" .
      have IH: "case trail m 0x80 0xBF (unat cp') (Suc c) (drop (Suc i) bs) of
           Emitted v k \<Rightarrow> Suc c \<le> k \<and> Suc i + (k - Suc c) \<le> length bs \<and> k - Suc c = m \<and>
             (\<exists>cp''. unat cp'' = v \<and> cont_loop bs (Suc i) (length bs) cp' s' = Inr (Suc i + (k - Suc c), cp'', END))
         | Malformed k \<Rightarrow> Suc c < k \<and> Suc i + (k - Suc c) \<le> length bs \<and>
             (\<exists>cp''. cont_loop bs (Suc i) (length bs) cp' s' = Inr (Suc i + (k - Suc c), cp'', ERR))
         | Truncated k \<Rightarrow> k = Suc c + (length bs - Suc i) \<and>
             (\<exists>cp''. cont_loop bs (Suc i) (length bs) cp' s' = Inr (length bs, cp'', ERR))"
        using nx i bound by (intro Suc.IH) auto
      have tr: "trail (Suc m) lo hi (unat cp) c (drop i bs)
          = trail m 0x80 0xBF (unat cp') (Suc c) (drop (Suc i) bs)"
        using True by (simp add: drop cp'_val)
      show ?thesis
        unfolding tr step using IH i
        by (cases "trail m 0x80 0xBF (unat cp') (Suc c) (drop (Suc i) bs)") auto
    qed
  qed
qed

lemma initial_state_nth:
  "n < 62 \<Longrightarrow> initial_state ! n =
    (let b = n + 0xC2 in
     if b < 0xE0 then (of_nat (b - 0xC0), CS1)
     else if b = 0xE0 then (0, P3A)
     else if b = 0xED then (0x0D, P3B)
     else if b < 0xF0 then (of_nat (b - 0xE0), CS2)
     else if b = 0xF0 then (0, P4A)
     else if b < 0xF4 then (of_nat (b - 0xF0), CS3)
     else if b = 0xF4 then (4, P4B)
     else (of_nat b, ERR))"
  by (subst initial_state_map) (simp only: nth_map_upt add_0 minus_nat.diff_0)

lemma subscript_initial_state:
  fixes octet :: uint8_t
  assumes "\<not> octet < 0xC2"
  shows "subscript InitialStateOutOfBounds initial_state (uint octet - 0xC2)
     = Inr (initial_state ! (unat octet - 0xC2))"
proof -
  have lo: "0xC2 \<le> uint octet" using assms by (simp add: word_less_def)
  have hi: "uint octet < 256" using uint_lt2p [of octet] by simp
  have "nat (uint octet - 0xC2) = nat (uint octet) - nat 0xC2"
    by (rule nat_diff_distrib') (use lo in simp_all)
  also have "nat (0xC2 :: int) = 0xC2" by simp
  finally have idx: "nat (uint octet - 0xC2) = unat octet - 0xC2"
    by (simp only: unat_eq_nat_uint)
  have inside: "0 \<le> uint octet - 0xC2 \<and> uint octet - 0xC2 < int (length initial_state)"
    using lo hi by (simp add: length_initial_state)
  show ?thesis
    by (simp only: subscript_def inside idx, simp)
qed

lemma initial_state_of_leader:
  fixes b :: uint8_t
  assumes "0xC2 \<le> unat b"
  shows "initial_state ! (unat b - 0xC2) =
    (if unat b < 0xE0 then (of_nat (unat b - 0xC0), CS1)
     else if unat b = 0xE0 then (0, P3A)
     else if unat b = 0xED then (0x0D, P3B)
     else if unat b < 0xF0 then (of_nat (unat b - 0xE0), CS2)
     else if unat b = 0xF0 then (0, P4A)
     else if unat b < 0xF4 then (of_nat (unat b - 0xF0), CS3)
     else if unat b = 0xF4 then (4, P4B)
     else (of_nat (unat b), ERR))"
proof -
  have lt: "unat b - 0xC2 < 62" using unat_lt_256 [of b] by simp
  have idx: "unat b - 0xC2 + 0xC2 = unat b" using assms by simp
  have sub: "unat b - 0xC2 + 0xC2 - k = unat b - k" for k by (simp only: idx)
  show ?thesis
    by (simp only: initial_state_nth [OF lt] Let_def idx sub)
qed

lemma initial_lead:
  fixes b :: uint8_t
  assumes "0xC2 \<le> unat b"
  shows "case lead (unat b) of
           None \<Rightarrow> snd (initial_state ! (unat b - 0xC2)) = ERR
         | Some (n, lo, hi, cp) \<Rightarrow>
             unat (fst (initial_state ! (unat b - 0xC2))) = cp \<and>
             pending (snd (initial_state ! (unat b - 0xC2))) = (n, lo, hi) \<and>
             0 < n \<and> state_value (snd (initial_state ! (unat b - 0xC2))) > 12 \<and>
             (cp + 1) * 64 ^ n \<le> 2 ^ 23"
  unfolding initial_state_of_leader [OF assms] lead_def
  using assms unat_lt_256 [of b]
  by (auto simp: unat_sub word_le_nat_alt)

lemma decode_unfold:
  assumes "i < length bs"
  shows "decode bs i (length bs) out =
     (if bs ! i < 0x80 then decode bs (Suc i) (length bs) (out @ [ucast (bs ! i)])
      else if bs ! i < 0xC2 then Inr (Suc i, out)
      else (case cont_loop bs (Suc i) (length bs)
                   (ucast (fst (initial_state ! (unat (bs ! i) - 0xC2))))
                   (snd (initial_state ! (unat (bs ! i) - 0xC2))) of
              Inl f \<Rightarrow> Inl f
            | Inr (input2, code_point, state') \<Rightarrow>
                if state' = ERR then Inr (input2, out)
                else decode bs input2 (length bs) (out @ [code_point])))"
  using assms unfolding decode.simps [of bs i] write_out_def
  by (simp add: check_def read_def subscript_initial_state split: prod.splits)

lemma decode_at_end: "decode bs e e out = Inr (e, out)"
  by (subst decode.simps) (simp add: check_def)

lemma decode_scan:
  assumes i: "i < length bs"
  shows "case scan_one (drop i bs) of
           Emitted v k \<Rightarrow> 0 < k \<and> i + k \<le> length bs \<and>
             (\<forall>out. decode bs i (length bs) out
                       = decode bs (i + k) (length bs) (out @ [of_nat v]))
         | Malformed k \<Rightarrow> 0 < k \<and> i + k \<le> length bs \<and>
             (\<forall>out. decode bs i (length bs) out = Inr (i + k, out))
         | Truncated k \<Rightarrow> 0 < k \<and> i + k = length bs \<and>
             (\<forall>out. decode bs i (length bs) out = Inr (length bs, out))"
proof -
  define b where "b = bs ! i"
  have drop: "drop i bs = b # drop (Suc i) bs"
    using i by (simp add: b_def Cons_nth_drop_Suc)
  note unf = decode_unfold [OF i, folded b_def]
  consider (ascii) "unat b < 0x80" | (stray) "0x80 \<le> unat b" "unat b < 0xC2"
    | (leader) "0xC2 \<le> unat b"
    by linarith
  then show ?thesis
  proof cases
    case ascii
    then have "b < 0x80" by (simp add: word_less_nat_alt)
    moreover have "(ucast b :: char32_t) = of_nat (unat b)" by simp
    ultimately show ?thesis using i ascii by (simp add: drop unf)
  next
    case stray
    then have "\<not> b < 0x80" "b < 0xC2" by (simp_all add: word_less_nat_alt)
    moreover have "lead (unat b) = None" using stray by (simp add: lead_def)
    ultimately show ?thesis using i stray by (simp add: drop unf)
  next
    case leader
    then have nb: "\<not> b < 0x80" "\<not> b < 0xC2" by (simp_all add: word_less_nat_alt)
    define tmp where "tmp = fst (initial_state ! (unat b - 0xC2))"
    define s where "s = snd (initial_state ! (unat b - 0xC2))"
    have unf': "decode bs i (length bs) out =
        (case cont_loop bs (Suc i) (length bs) (ucast tmp) s of
              Inl f \<Rightarrow> Inl f
            | Inr (input2, code_point, state') \<Rightarrow>
                if state' = ERR then Inr (input2, out)
                else decode bs input2 (length bs) (out @ [code_point]))" for out
      by (simp add: unf nb tmp_def s_def)
    have hi: "\<not> unat b < 0x80" using leader by simp
    note il = initial_lead [OF leader, folded tmp_def s_def]
    show ?thesis
    proof (cases "lead (unat b)")
      case None
      with il have "s = ERR" by simp
      then have "cont_loop bs (Suc i) (length bs) (ucast tmp) s = Inr (Suc i, ucast tmp, ERR)"
        by (simp add: cont_loop_stop)
      with None hi i show ?thesis by (simp add: drop unf')
    next
      case (Some p)
      obtain n lo hi' cp where p: "p = (n, lo, hi', cp)" by (cases p) auto
      from il Some p have tmp: "unat tmp = cp" and pend: "pending s = (n, lo, hi')"
        and n: "0 < n" and live: "state_value s > 12" and bound: "(cp + 1) * 64 ^ n \<le> 2 ^ 23"
        by simp_all
      have ucp: "unat (ucast tmp :: char32_t) = cp"
        using tmp unat_lt_256 [of tmp]
        by (simp add: unsigned_ucast_eq take_bit_nat_eq_self_iff)
      have bound32: "(unat (ucast tmp :: char32_t) + 1) * 64 ^ n \<le> 2 ^ 32"
        using bound by (simp add: ucp)
      have sc: "scan_one (drop i bs) = trail n lo hi' (unat (ucast tmp :: char32_t)) 1 (drop (Suc i) bs)"
        using hi Some p by (simp add: drop ucp)
      have ct: "case trail n lo hi' (unat (ucast tmp :: char32_t)) 1 (drop (Suc i) bs) of
           Emitted v k \<Rightarrow> 1 \<le> k \<and> Suc i + (k - 1) \<le> length bs \<and> k - 1 = n \<and>
             (\<exists>cp'. unat cp' = v \<and> cont_loop bs (Suc i) (length bs) (ucast tmp) s = Inr (Suc i + (k - 1), cp', END))
         | Malformed k \<Rightarrow> 1 < k \<and> Suc i + (k - 1) \<le> length bs \<and>
             (\<exists>cp'. cont_loop bs (Suc i) (length bs) (ucast tmp) s = Inr (Suc i + (k - 1), cp', ERR))
         | Truncated k \<Rightarrow> k = 1 + (length bs - Suc i) \<and>
             (\<exists>cp'. cont_loop bs (Suc i) (length bs) (ucast tmp) s = Inr (length bs, cp', ERR))"
        using pend n live i bound32 by (intro cont_loop_trail) auto
      show ?thesis
      proof (cases "trail n lo hi' (unat (ucast tmp :: char32_t)) 1 (drop (Suc i) bs)")
        case (Emitted v k)
        with ct obtain cp' where k: "1 \<le> k" "Suc i + (k - 1) \<le> length bs"
          and cp': "unat cp' = v"
          and cl: "cont_loop bs (Suc i) (length bs) (ucast tmp) s = Inr (Suc i + (k - 1), cp', END)"
          by auto
        from cp' have "of_nat v = cp'" by auto
        moreover from k have "Suc i + (k - 1) = i + k" by simp
        ultimately show ?thesis unfolding sc Emitted using k by (simp add: unf' cl)
      next
        case (Malformed k)
        with ct obtain cp' where k: "1 < k" "Suc i + (k - 1) \<le> length bs"
          and cl: "cont_loop bs (Suc i) (length bs) (ucast tmp) s = Inr (Suc i + (k - 1), cp', ERR)"
          by auto
        from k have "Suc i + (k - 1) = i + k" by simp
        then show ?thesis unfolding sc Malformed using k by (simp add: unf' cl)
      next
        case (Truncated k)
        with ct obtain cp' where k: "k = 1 + (length bs - Suc i)"
          and cl: "cont_loop bs (Suc i) (length bs) (ucast tmp) s = Inr (length bs, cp', ERR)"
          by auto
        from k i have "i + k = length bs" by simp
        then show ?thesis unfolding sc Truncated using k by (simp add: unf' cl)
      qed
    qed
  qed
qed

lemma decode_scan_all:
  "i \<le> length bs \<Longrightarrow>
     decode bs i (length bs) out =
       Inr (i + fst (scan (drop i bs)), out @ map of_nat (snd (scan (drop i bs))))"
proof (induction "length bs - i" arbitrary: i out rule: less_induct)
  case less
  show ?case
  proof (cases "i = length bs")
    case True
    then show ?thesis
      by (simp add: decode_at_end scan.simps [of "[]"])
  next
    case False
    with less.prems have i: "i < length bs" by simp
    note ds = decode_scan [OF i]
    show ?thesis
    proof (cases "scan_one (drop i bs)")
      case (Emitted v k)
      with ds have k: "0 < k" "i + k \<le> length bs"
        and step: "decode bs i (length bs) out = decode bs (i + k) (length bs) (out @ [of_nat v])"
        by simp_all
      have "decode bs (i + k) (length bs) (out @ [of_nat v]) =
          Inr (i + k + fst (scan (drop (i + k) bs)),
               (out @ [of_nat v]) @ map of_nat (snd (scan (drop (i + k) bs))))"
        using k i by (intro less.hyps) auto
      moreover have "drop (i + k) bs = drop k (drop i bs)"
        by (simp add: add.commute)
      ultimately show ?thesis
        by (simp add: step scan.simps [of "drop i bs"] Emitted)
    next
      case (Malformed k)
      with ds show ?thesis by (simp add: scan.simps [of "drop i bs"])
    next
      case (Truncated k)
      with ds show ?thesis by (simp add: scan.simps [of "drop i bs"])
    qed
  qed
qed

lemma scan_progress: "xs \<noteq> [] \<Longrightarrow> 0 < fst (scan xs)"
proof (cases "scan_one xs")
  case (Emitted v k)
  with scan_one_emitted [OF Emitted] show ?thesis by (simp add: scan.simps [of xs])
next
  case (Malformed k)
  with scan_one_malformed [OF Malformed] show ?thesis by (simp add: scan.simps [of xs])
next
  case (Truncated k)
  assume "xs \<noteq> []"
  with scan_one_truncated [OF Truncated] Truncated show ?thesis
    by (simp add: scan.simps [of xs])
qed

lemma scan_bounds: "fst (scan xs) \<le> length xs"
proof (induction xs rule: scan.induct)
  case (1 xs)
  show ?case
  proof (cases "scan_one xs")
    case (Emitted v k)
    with "1.IH" [OF Emitted] scan_one_emitted [OF Emitted] show ?thesis
      by (auto simp: scan.simps [of xs])
  next
    case (Malformed k)
    with scan_one_malformed [OF Malformed] show ?thesis by (simp add: scan.simps [of xs])
  next
    case (Truncated k)
    with scan_one_truncated [OF Truncated] show ?thesis by (simp add: scan.simps [of xs])
  qed
qed

section \<open>The scanner against the reference encoder\<close>

text \<open>The reference encoder on the boundary values of each length and some others.\<close>

lemma utf8_encode_examples:
  "utf8_encode 0x24 = [0x24]"
  "utf8_encode 0xA3 = [0xC2, 0xA3]"
  "utf8_encode 0x7FF = [0xDF, 0xBF]"
  "utf8_encode 0x800 = [0xE0, 0xA0, 0x80]"
  "utf8_encode 0x20AC = [0xE2, 0x82, 0xAC]"
  "utf8_encode 0xFFFF = [0xEF, 0xBF, 0xBF]"
  "utf8_encode 0x10000 = [0xF0, 0x90, 0x80, 0x80]"
  "utf8_encode 0x10348 = [0xF0, 0x90, 0x8D, 0x88]"
  "utf8_encode 0x10FFFF = [0xF4, 0x8F, 0xBF, 0xBF]"
  by (simp_all add: utf8_encode_def)

lemma trail_1:
  "trail (Suc 0) lo hi cp c xs =
     (case xs of [] \<Rightarrow> Truncated c
      | b # _ \<Rightarrow> if lo \<le> unat b \<and> unat b \<le> hi
                 then Emitted (64 * cp + unat b mod 64) (Suc c) else Malformed (Suc c))"
  by (cases xs) simp_all

lemma trail_2:
  "trail 2 lo hi cp c xs =
     (case xs of [] \<Rightarrow> Truncated c
      | b # ys \<Rightarrow> if lo \<le> unat b \<and> unat b \<le> hi
                 then trail (Suc 0) 0x80 0xBF (64 * cp + unat b mod 64) (Suc c) ys
                 else Malformed (Suc c))"
  by (cases xs) (simp_all add: numeral_2_eq_2)

lemma trail_3:
  "trail 3 lo hi cp c xs =
     (case xs of [] \<Rightarrow> Truncated c
      | b # ys \<Rightarrow> if lo \<le> unat b \<and> unat b \<le> hi
                 then trail 2 0x80 0xBF (64 * cp + unat b mod 64) (Suc c) ys
                 else Malformed (Suc c))"
  by (cases xs) (simp_all add: numeral_3_eq_3 numeral_2_eq_2)

lemma unat_byte: "n < 256 \<Longrightarrow> unat (of_nat n :: uint8_t) = n"
  by (simp add: unat_of_nat)

lemma scan_one_encode_1:
  assumes "v < 0x80"
  shows "scan_one (utf8_encode v @ rest) = Emitted v 1"
  using assms by (simp add: utf8_encode_def unat_byte)

lemma payload_mod: "b < 64 \<Longrightarrow> (128 + b) mod 64 = (b::nat)"
proof -
  assume b: "b < 64"
  have "(128 + b) mod 64 = (b + 64 * 2) mod 64" by (simp only: add.commute) simp
  also have "\<dots> = b mod 64" by (rule mod_mult_self2)
  finally show ?thesis using b by simp
qed

lemma split_2: "(v::nat) = 64 * (v div 64) + v mod 64"
  by (rule mult_div_mod_eq [symmetric])

lemma split_3: "(v::nat) = 4096 * (v div 4096) + 64 * (v div 64 mod 64) + v mod 64"
proof -
  have "v mod (64 * 64) = 64 * (v div 64 mod 64) + v mod 64"
    by (rule mod_mult2_eq)
  then have m: "v mod 4096 = 64 * (v div 64 mod 64) + v mod 64" by simp
  have "v = 4096 * (v div 4096) + v mod 4096" by (rule mult_div_mod_eq [symmetric])
  then show ?thesis unfolding m by (simp only: add.assoc)
qed

lemma split_4:
  "(v::nat) = 262144 * (v div 262144) + 4096 * (v div 4096 mod 64) + 64 * (v div 64 mod 64) + v mod 64"
proof -
  have "v mod (4096 * 64) = 4096 * (v div 4096 mod 64) + v mod 4096"
    by (rule mod_mult2_eq)
  then have m1: "v mod 262144 = 4096 * (v div 4096 mod 64) + v mod 4096"
    by simp
  have "v mod (64 * 64) = 64 * (v div 64 mod 64) + v mod 64"
    by (rule mod_mult2_eq)
  then have m2: "v mod 4096 = 64 * (v div 64 mod 64) + v mod 64"
    by simp
  have "v = 262144 * (v div 262144) + v mod 262144" by (rule mult_div_mod_eq [symmetric])
  then show ?thesis unfolding m1 m2 by (simp only: add.assoc)
qed

lemma scan_one_encode_2:
  assumes "0x80 \<le> v" "v < 0x800"
  shows "scan_one (utf8_encode v @ rest) = Emitted v 2"
proof -
  define a where "a = v div 64"
  define b where "b = v mod 64"
  have v: "v = 64 * a + b" unfolding a_def b_def by (rule split_2)
  have b: "b < 64" by (simp add: b_def)
  have a: "2 \<le> a" "a < 32" using assms v b by linarith+
  define b0 :: uint8_t where "b0 = of_nat (0xC0 + a)"
  define b1 :: uint8_t where "b1 = of_nat (0x80 + b)"
  have enc: "utf8_encode v = [b0, b1]"
    using assms by (simp add: utf8_encode_def a_def b_def b0_def b1_def)
  have u0: "unat b0 = 0xC0 + a" unfolding b0_def using a by (intro unat_byte) simp
  have u1: "unat b1 = 0x80 + b" unfolding b1_def using b by (intro unat_byte) simp
  have l: "lead (0xC0 + a) = Some (1, 0x80, 0xBF, a)" using a by (simp add: lead_def)
  have "scan_one ([b0, b1] @ rest) = Emitted (64 * a + b) 2"
    using a b by (simp add: u0 u1 l trail_1 payload_mod)
  then show ?thesis unfolding enc v [symmetric] .
qed

lemma scan_one_encode_3:
  assumes "0x800 \<le> v" "v < 0x10000" "\<not> (0xD800 \<le> v \<and> v \<le> 0xDFFF)"
  shows "scan_one (utf8_encode v @ rest) = Emitted v 3"
proof -
  define a where "a = v div 4096"
  define b where "b = v div 64 mod 64"
  define c where "c = v mod 64"
  have v: "v = 4096 * a + 64 * b + c" unfolding a_def b_def c_def by (rule split_3)
  have b: "b < 64" and c: "c < 64" by (simp_all add: b_def c_def)
  have a: "a < 16" using assms v b c by linarith
  have a0: "a = 0 \<Longrightarrow> 32 \<le> b" using assms v b c by linarith
  have a13: "a = 13 \<Longrightarrow> b < 32" using assms v b c by linarith
  define b0 :: uint8_t where "b0 = of_nat (0xE0 + a)"
  define b1 :: uint8_t where "b1 = of_nat (0x80 + b)"
  define b2 :: uint8_t where "b2 = of_nat (0x80 + c)"
  have enc: "utf8_encode v = [b0, b1, b2]"
    using assms by (simp add: utf8_encode_def a_def b_def c_def b0_def b1_def b2_def)
  have u0: "unat b0 = 0xE0 + a" unfolding b0_def using a by (intro unat_byte) simp
  have u1: "unat b1 = 0x80 + b" unfolding b1_def using b by (intro unat_byte) simp
  have u2: "unat b2 = 0x80 + c" unfolding b2_def using c by (intro unat_byte) simp
  have l: "lead (0xE0 + a) = Some (2, if a = 0 then 0xA0 else 0x80, if a = 13 then 0x9F else 0xBF, a)"
    using a by (simp add: lead_def)
  have "scan_one ([b0, b1, b2] @ rest) = Emitted (4096 * a + 64 * b + c) 3"
    using a b c a0 a13 by (auto simp: u0 u1 u2 l trail_1 trail_2 payload_mod)
  then show ?thesis unfolding enc v [symmetric] .
qed

lemma scan_one_encode_4:
  assumes "0x10000 \<le> v" "v \<le> 0x10FFFF"
  shows "scan_one (utf8_encode v @ rest) = Emitted v 4"
proof -
  define a where "a = v div 262144"
  define b where "b = v div 4096 mod 64"
  define c where "c = v div 64 mod 64"
  define d where "d = v mod 64"
  have v: "v = 262144 * a + 4096 * b + 64 * c + d"
    unfolding a_def b_def c_def d_def by (rule split_4)
  have b: "b < 64" and c: "c < 64" and d: "d < 64" by (simp_all add: b_def c_def d_def)
  have a: "a < 5" using assms v b c d by linarith
  have a0: "a = 0 \<Longrightarrow> 16 \<le> b" using assms v b c d by linarith
  have a4: "a = 4 \<Longrightarrow> b < 16" using assms v b c d by linarith
  define b0 :: uint8_t where "b0 = of_nat (0xF0 + a)"
  define b1 :: uint8_t where "b1 = of_nat (0x80 + b)"
  define b2 :: uint8_t where "b2 = of_nat (0x80 + c)"
  define b3 :: uint8_t where "b3 = of_nat (0x80 + d)"
  have enc: "utf8_encode v = [b0, b1, b2, b3]"
    using assms
    by (simp add: utf8_encode_def a_def b_def c_def d_def b0_def b1_def b2_def b3_def)
  have u0: "unat b0 = 0xF0 + a" unfolding b0_def using a by (intro unat_byte) simp
  have u1: "unat b1 = 0x80 + b" unfolding b1_def using b by (intro unat_byte) simp
  have u2: "unat b2 = 0x80 + c" unfolding b2_def using c by (intro unat_byte) simp
  have u3: "unat b3 = 0x80 + d" unfolding b3_def using d by (intro unat_byte) simp
  have l: "lead (0xF0 + a) = Some (3, if a = 0 then 0x90 else 0x80, if a = 4 then 0x8F else 0xBF, a)"
    using a by (simp add: lead_def)
  have "scan_one ([b0, b1, b2, b3] @ rest) = Emitted (262144 * a + 4096 * b + 64 * c + d) 4"
    using a b c d a0 a4
    by (auto simp: u0 u1 u2 u3 l trail_1 trail_2 trail_3 payload_mod)
  then show ?thesis unfolding enc v [symmetric] .
qed

lemma length_utf8_encode:
  "length (utf8_encode v) = (if v < 0x80 then 1 else if v < 0x800 then 2 else if v < 0x10000 then 3 else 4)"
  by (simp add: utf8_encode_def)

lemma scan_one_encode:
  assumes "scalar_value v"
  shows "scan_one (utf8_encode v @ rest) = Emitted v (length (utf8_encode v))"
proof -
  consider "v < 0x80" | "0x80 \<le> v" "v < 0x800" | "0x800 \<le> v" "v < 0x10000" | "0x10000 \<le> v"
    by linarith
  then show ?thesis
  proof cases
    case 1
    then show ?thesis by (simp add: scan_one_encode_1 length_utf8_encode)
  next
    case 2
    then show ?thesis by (simp add: scan_one_encode_2 length_utf8_encode)
  next
    case 3
    with assms show ?thesis by (simp add: scan_one_encode_3 length_utf8_encode scalar_value_def)
  next
    case 4
    with assms show ?thesis by (simp add: scan_one_encode_4 length_utf8_encode scalar_value_def)
  qed
qed

lemma scan_Nil: "scan [] = (0, [])"
  by (simp add: scan.simps [of "[]"])

lemma scan_encode_append:
  assumes "scalar_value v"
  shows "scan (utf8_encode v @ rest) =
     (length (utf8_encode v) + fst (scan rest), v # snd (scan rest))"
  by (subst scan.simps) (simp add: scan_one_encode [OF assms])

lemma scan_encode_all:
  "\<forall>v \<in> set vs. scalar_value v \<Longrightarrow>
     scan (concat (map utf8_encode vs) @ rest) =
       (length (concat (map utf8_encode vs)) + fst (scan rest), vs @ snd (scan rest))"
  by (induction vs) (simp_all add: scan_encode_append)

lemma scan_ascii:
  "\<forall>b \<in> set xs. b < 0x80 \<Longrightarrow> scan xs = (length xs, map unat xs)"
proof (induction xs)
  case Nil
  show ?case by (simp add: scan_Nil)
next
  case (Cons b xs)
  then have "unat b < 0x80" by (simp add: word_less_nat_alt)
  with Cons show ?case
    by (subst scan.simps) simp
qed

lemma cont_loop_total:
  "i \<le> length bs \<Longrightarrow>
     \<exists>i' cp' s'. cont_loop bs i (length bs) cp s = Inr (i', cp', s') \<and>
        i \<le> i' \<and> i' \<le> length bs \<and> (s' = END \<or> s' = ERR)"
proof (induction "length bs - i" arbitrary: i cp s rule: less_induct)
  case less
  show ?case
  proof (cases "state_value s > 12")
    case False
    then have "s = END \<or> s = ERR" by (cases s) auto
    with False less.prems show ?thesis by (auto simp: cont_loop_stop)
  next
    case live: True
    show ?thesis
    proof (cases "i = length bs")
      case True
      with live show ?thesis by (simp add: cont_loop_eof)
    next
      case False
      with less.prems have i: "i < length bs" by simp
      define cp1 where "cp1 = push_bit 6 cp OR ucast (bs ! i AND 0x3F)"
      define s1 where
        "s1 = state_transition ! nat (state_value s + class_value (octet_category ! unat (bs ! i)))"
      have step: "cont_loop bs i (length bs) cp s = cont_loop bs (Suc i) (length bs) cp1 s1"
        unfolding cp1_def s1_def by (rule cont_loop_step [OF live i False])
      have "length bs - Suc i < length bs - i" "Suc i \<le> length bs"
        using i by simp_all
      from less.hyps [OF this, of cp1 s1]
      obtain i' cp' s' where "cont_loop bs (Suc i) (length bs) cp1 s1 = Inr (i', cp', s')"
        and "Suc i \<le> i'" "i' \<le> length bs" "s' = END \<or> s' = ERR"
        by blast
      then have "cont_loop bs i (length bs) cp s = Inr (i', cp', s') \<and>
          i \<le> i' \<and> i' \<le> length bs \<and> (s' = END \<or> s' = ERR)"
        by (simp add: step)
      then show ?thesis by blast
    qed
  qed
qed

lemma lead_stray: "u < 0xC2 \<Longrightarrow> lead u = None"
  by (simp add: lead_def)

lemma lead_2: "0xC2 \<le> u \<Longrightarrow> u \<le> 0xDF \<Longrightarrow> lead u = Some (1, 0x80, 0xBF, u - 0xC0)"
  by (simp add: lead_def)

lemma lead_3:
  "0xE0 \<le> u \<Longrightarrow> u \<le> 0xEF \<Longrightarrow>
     lead u = Some (2, if u = 0xE0 then 0xA0 else 0x80, if u = 0xED then 0x9F else 0xBF, u - 0xE0)"
  by (simp add: lead_def)

lemma lead_4:
  "0xF0 \<le> u \<Longrightarrow> u \<le> 0xF4 \<Longrightarrow>
     lead u = Some (3, if u = 0xF0 then 0x90 else 0x80, if u = 0xF4 then 0x8F else 0xBF, u - 0xF0)"
  by (simp add: lead_def)

lemma lead_beyond: "0xF5 \<le> u \<Longrightarrow> lead u = None"
  by (simp add: lead_def)

lemma payload_of_trailing:
  assumes "128 \<le> x" "x \<le> 191"
  shows "x mod 64 = x - (128::nat)"
proof -
  define b where "b = x - 128"
  have x: "x = 128 + b" and b: "b < 64" using assms by (simp_all add: b_def)
  show ?thesis unfolding x using b by (simp add: payload_mod)
qed

lemma digits_2:
  assumes "b < 64"
  shows "(64 * a + b) div 64 = (a::nat)" "(64 * a + b) mod 64 = b"
  using assms by simp_all

lemma digits_3:
  assumes "b < 64" "c < 64"
  shows "(4096 * a + 64 * b + c) div 4096 = (a::nat)"
    "(4096 * a + 64 * b + c) div 64 mod 64 = b"
    "(4096 * a + 64 * b + c) mod 64 = c"
proof -
  define k where "k = 64 * a + b"
  define r where "r = 64 * b + c"
  have vk: "4096 * a + 64 * b + c = 64 * k + c" by (simp add: k_def)
  have vr: "4096 * a + 64 * b + c = 4096 * a + r" by (simp add: r_def)
  have r: "r < 4096" using assms by (simp add: r_def)
  have "(64 * k + c) mod 64 = c mod 64" by (rule mod_mult_self4)
  then show "(4096 * a + 64 * b + c) mod 64 = c"
    unfolding vk using assms by simp
  have "(64 * k + c) div 64 = k + c div 64" by (rule div_mult_self4) simp
  then have "(64 * k + c) div 64 = k" using assms by simp
  then show "(4096 * a + 64 * b + c) div 64 mod 64 = b"
    unfolding vk using assms by (simp add: k_def)
  have "(4096 * a + r) div 4096 = a + r div 4096" by (rule div_mult_self4) simp
  then show "(4096 * a + 64 * b + c) div 4096 = a"
    unfolding vr using r by simp
qed

lemma digits_4:
  assumes "b < 64" "c < 64" "d < 64"
  shows "(262144 * a + 4096 * b + 64 * c + d) div 262144 = (a::nat)"
    "(262144 * a + 4096 * b + 64 * c + d) div 4096 mod 64 = b"
    "(262144 * a + 4096 * b + 64 * c + d) div 64 mod 64 = c"
    "(262144 * a + 4096 * b + 64 * c + d) mod 64 = d"
proof -
  define k where "k = 64 * a + b"
  define r where "r = 4096 * b + 64 * c + d"
  have vk: "262144 * a + 4096 * b + 64 * c + d = 4096 * k + 64 * c + d" by (simp add: k_def)
  have vr: "262144 * a + 4096 * b + 64 * c + d = 262144 * a + r" by (simp add: r_def)
  have r: "r < 262144" using assms by (simp add: r_def)
  note d3 = digits_3 [OF assms(2,3), of k]
  show "(262144 * a + 4096 * b + 64 * c + d) div 64 mod 64 = c"
    unfolding vk by (rule d3)
  show "(262144 * a + 4096 * b + 64 * c + d) mod 64 = d"
    unfolding vk by (rule d3)
  show "(262144 * a + 4096 * b + 64 * c + d) div 4096 mod 64 = b"
    unfolding vk d3 using assms by (simp add: k_def)
  have "(262144 * a + r) div 262144 = a + r div 262144" by (rule div_mult_self4) simp
  then show "(262144 * a + 4096 * b + 64 * c + d) div 262144 = a"
    unfolding vr using r by simp
qed

lemma trail_1_emitted:
  assumes "trail (Suc 0) lo hi cp c xs = Emitted v k"
  obtains b1 t where "xs = b1 # t" "lo \<le> unat b1" "unat b1 \<le> hi"
    "v = 64 * cp + unat b1 mod 64" "k = Suc c"
  using assms by (cases xs) (auto split: if_splits)

lemma trail_2_emitted:
  assumes "trail 2 lo hi cp c xs = Emitted v k"
  obtains b1 b2 t where "xs = b1 # b2 # t" "lo \<le> unat b1" "unat b1 \<le> hi"
    "0x80 \<le> unat b2" "unat b2 \<le> 0xBF"
    "v = 64 * (64 * cp + unat b1 mod 64) + unat b2 mod 64" "k = c + 2"
proof (cases xs)
  case Nil
  with assms show ?thesis by (simp add: trail_2)
next
  case (Cons b1 ys)
  with assms have r: "lo \<le> unat b1" "unat b1 \<le> hi"
    and rest: "trail (Suc 0) 0x80 0xBF (64 * cp + unat b1 mod 64) (Suc c) ys = Emitted v k"
    by (auto simp: trail_2 split: if_splits)
  from rest show ?thesis
    by (rule trail_1_emitted) (use Cons r in \<open>auto intro: that\<close>)
qed

lemma trail_3_emitted:
  assumes "trail 3 lo hi cp c xs = Emitted v k"
  obtains b1 b2 b3 t where "xs = b1 # b2 # b3 # t" "lo \<le> unat b1" "unat b1 \<le> hi"
    "0x80 \<le> unat b2" "unat b2 \<le> 0xBF" "0x80 \<le> unat b3" "unat b3 \<le> 0xBF"
    "v = 64 * (64 * (64 * cp + unat b1 mod 64) + unat b2 mod 64) + unat b3 mod 64" "k = c + 3"
proof (cases xs)
  case Nil
  with assms show ?thesis by (simp add: trail_3)
next
  case (Cons b1 ys)
  with assms have r: "lo \<le> unat b1" "unat b1 \<le> hi"
    and rest: "trail 2 0x80 0xBF (64 * cp + unat b1 mod 64) (Suc c) ys = Emitted v k"
    by (auto simp: trail_3 split: if_splits)
  from rest show ?thesis
    by (rule trail_2_emitted) (use Cons r in \<open>auto intro: that\<close>)
qed

lemma byte_of_unat: "of_nat (unat (b :: uint8_t)) = b"
  by simp

lemma scan_one_sound_2:
  fixes b0 b1 :: uint8_t
  assumes u: "0xC2 \<le> unat b0" "unat b0 \<le> 0xDF"
    and r1: "0x80 \<le> unat b1" "unat b1 \<le> 0xBF"
    and v: "v = 64 * (unat b0 - 0xC0) + unat b1 mod 64"
  shows "scalar_value v \<and> utf8_encode v = [b0, b1]"
proof -
  define a where "a = unat b0 - 0xC0"
  define b where "b = unat b1 - 0x80"
  have a: "2 \<le> a" "a < 32" and b: "b < 64" using u r1 by (simp_all add: a_def b_def)
  have e0: "0xC0 + a = unat b0" and e1: "0x80 + b = unat b1"
    using u r1 by (simp_all add: a_def b_def)
  have m1: "unat b1 mod 64 = b" unfolding b_def using r1 by (rule payload_of_trailing)
  have v': "v = 64 * a + b" unfolding v m1 a_def ..
  have range: "0x80 \<le> v" "v < 0x800" using a b unfolding v' by linarith+
  have "utf8_encode v = [of_nat (0xC0 + v div 64), of_nat (0x80 + v mod 64)]"
    using range by (simp add: utf8_encode_def)
  also have "\<dots> = [of_nat (0xC0 + a), of_nat (0x80 + b)]"
    unfolding v' digits_2 [OF b] ..
  also have "\<dots> = [b0, b1]" unfolding e0 e1 byte_of_unat ..
  finally show ?thesis using range by (simp add: scalar_value_def)
qed

lemma scan_one_sound_3:
  fixes b0 b1 b2 :: uint8_t
  assumes u: "0xE0 \<le> unat b0" "unat b0 \<le> 0xEF"
    and r1: "(if unat b0 = 0xE0 then 0xA0 else 0x80) \<le> unat b1"
            "unat b1 \<le> (if unat b0 = 0xED then 0x9F else 0xBF)"
    and r2: "0x80 \<le> unat b2" "unat b2 \<le> 0xBF"
    and v: "v = 64 * (64 * (unat b0 - 0xE0) + unat b1 mod 64) + unat b2 mod 64"
  shows "scalar_value v \<and> utf8_encode v = [b0, b1, b2]"
proof -
  define a where "a = unat b0 - 0xE0"
  define b where "b = unat b1 - 0x80"
  define c where "c = unat b2 - 0x80"
  have r1': "0x80 \<le> unat b1" "unat b1 \<le> 0xBF" using r1 by (auto split: if_splits)
  have a: "a < 16" and b: "b < 64" and c: "c < 64"
    using u r1' r2 by (simp_all add: a_def b_def c_def)
  have a0: "a = 0 \<Longrightarrow> 32 \<le> b" using u r1 by (auto simp: a_def b_def split: if_splits)
  have a13: "a = 13 \<Longrightarrow> b < 32" using u r1 by (auto simp: a_def b_def split: if_splits)
  have e0: "0xE0 + a = unat b0" and e1: "0x80 + b = unat b1" and e2: "0x80 + c = unat b2"
    using u r1' r2 by (simp_all add: a_def b_def c_def)
  have m1: "unat b1 mod 64 = b" unfolding b_def using r1' by (rule payload_of_trailing)
  have m2: "unat b2 mod 64 = c" unfolding c_def using r2 by (rule payload_of_trailing)
  have v': "v = 4096 * a + 64 * b + c" unfolding v m1 m2 a_def by simp
  have lo: "0x800 \<le> v"
  proof (cases "a = 0")
    case True
    with a0 show ?thesis unfolding v' by simp
  next
    case False
    then show ?thesis unfolding v' by simp
  qed
  have hi: "v < 0x10000" using a b c unfolding v' by linarith
  have ns: "\<not> (0xD800 \<le> v \<and> v \<le> 0xDFFF)"
  proof (cases "a = 13")
    case True
    with a13 b c show ?thesis unfolding v' by simp
  next
    case False
    then have "a \<le> 12 \<or> 14 \<le> a" by linarith
    with b c show ?thesis unfolding v' by auto
  qed
  have "utf8_encode v =
      [of_nat (0xE0 + v div 4096), of_nat (0x80 + v div 64 mod 64), of_nat (0x80 + v mod 64)]"
    using lo hi by (simp add: utf8_encode_def)
  also have "\<dots> = [of_nat (0xE0 + a), of_nat (0x80 + b), of_nat (0x80 + c)]"
    unfolding v' digits_3 [OF b c] ..
  also have "\<dots> = [b0, b1, b2]" unfolding e0 e1 e2 byte_of_unat ..
  finally show ?thesis using hi ns by (simp add: scalar_value_def)
qed

lemma scan_one_sound_4:
  fixes b0 b1 b2 b3 :: uint8_t
  assumes u: "0xF0 \<le> unat b0" "unat b0 \<le> 0xF4"
    and r1: "(if unat b0 = 0xF0 then 0x90 else 0x80) \<le> unat b1"
            "unat b1 \<le> (if unat b0 = 0xF4 then 0x8F else 0xBF)"
    and r2: "0x80 \<le> unat b2" "unat b2 \<le> 0xBF"
    and r3: "0x80 \<le> unat b3" "unat b3 \<le> 0xBF"
    and v: "v = 64 * (64 * (64 * (unat b0 - 0xF0) + unat b1 mod 64) + unat b2 mod 64)
                + unat b3 mod 64"
  shows "scalar_value v \<and> utf8_encode v = [b0, b1, b2, b3]"
proof -
  define a where "a = unat b0 - 0xF0"
  define b where "b = unat b1 - 0x80"
  define c where "c = unat b2 - 0x80"
  define d where "d = unat b3 - 0x80"
  have r1': "0x80 \<le> unat b1" "unat b1 \<le> 0xBF" using r1 by (auto split: if_splits)
  have a: "a < 5" and b: "b < 64" and c: "c < 64" and d: "d < 64"
    using u r1' r2 r3 by (simp_all add: a_def b_def c_def d_def)
  have a0: "a = 0 \<Longrightarrow> 16 \<le> b" using u r1 by (auto simp: a_def b_def split: if_splits)
  have a4: "a = 4 \<Longrightarrow> b < 16" using u r1 by (auto simp: a_def b_def split: if_splits)
  have e0: "0xF0 + a = unat b0" and e1: "0x80 + b = unat b1" and e2: "0x80 + c = unat b2"
    and e3: "0x80 + d = unat b3"
    using u r1' r2 r3 by (simp_all add: a_def b_def c_def d_def)
  have m1: "unat b1 mod 64 = b" unfolding b_def using r1' by (rule payload_of_trailing)
  have m2: "unat b2 mod 64 = c" unfolding c_def using r2 by (rule payload_of_trailing)
  have m3: "unat b3 mod 64 = d" unfolding d_def using r3 by (rule payload_of_trailing)
  have v': "v = 262144 * a + 4096 * b + 64 * c + d" unfolding v m1 m2 m3 a_def by simp
  have lo: "0x10000 \<le> v"
  proof (cases "a = 0")
    case True
    with a0 show ?thesis unfolding v' by simp
  next
    case False
    then show ?thesis unfolding v' by simp
  qed
  have hi: "v \<le> 0x10FFFF"
  proof (cases "a = 4")
    case True
    with a4 b c d show ?thesis unfolding v' by simp
  next
    case False
    with a have "a \<le> 3" by simp
    with b c d show ?thesis unfolding v' by simp
  qed
  have "utf8_encode v =
      [of_nat (0xF0 + v div 262144), of_nat (0x80 + v div 4096 mod 64),
       of_nat (0x80 + v div 64 mod 64), of_nat (0x80 + v mod 64)]"
    using lo by (simp add: utf8_encode_def)
  also have "\<dots> = [of_nat (0xF0 + a), of_nat (0x80 + b), of_nat (0x80 + c), of_nat (0x80 + d)]"
    unfolding v' digits_4 [OF b c d] ..
  also have "\<dots> = [b0, b1, b2, b3]" unfolding e0 e1 e2 e3 byte_of_unat ..
  finally show ?thesis using lo hi by (simp add: scalar_value_def)
qed

lemma scan_one_sound:
  assumes "scan_one xs = Emitted v k"
  shows "scalar_value v \<and> take k xs = utf8_encode v"
proof (cases xs)
  case Nil
  with assms show ?thesis by simp
next
  case (Cons b0 t)
  consider (ascii) "unat b0 < 0x80" | (stray) "0x80 \<le> unat b0" "unat b0 < 0xC2"
    | (two) "0xC2 \<le> unat b0" "unat b0 \<le> 0xDF"
    | (three) "0xE0 \<le> unat b0" "unat b0 \<le> 0xEF"
    | (four) "0xF0 \<le> unat b0" "unat b0 \<le> 0xF4"
    | (beyond) "0xF5 \<le> unat b0"
    by linarith
  then show ?thesis
  proof cases
    case ascii
    with assms Cons have "v = unat b0" "k = 1" by simp_all
    moreover have "utf8_encode (unat b0) = [b0]" using ascii by (simp add: utf8_encode_def)
    ultimately show ?thesis using ascii Cons by (simp add: scalar_value_def)
  next
    case stray
    with assms Cons show ?thesis by (simp add: lead_stray)
  next
    case two
    with assms Cons have "trail (Suc 0) 0x80 0xBF (unat b0 - 0xC0) 1 t = Emitted v k"
      by (simp add: lead_2)
    then obtain b1 t' where t: "t = b1 # t'" and r: "0x80 \<le> unat b1" "unat b1 \<le> 0xBF"
      and v: "v = 64 * (unat b0 - 0xC0) + unat b1 mod 64" and k: "k = Suc 1"
      by (rule trail_1_emitted)
    from scan_one_sound_2 [OF two r v] show ?thesis by (simp add: Cons t k)
  next
    case three
    with assms Cons have "trail 2 (if unat b0 = 0xE0 then 0xA0 else 0x80)
        (if unat b0 = 0xED then 0x9F else 0xBF) (unat b0 - 0xE0) 1 t = Emitted v k"
      by (simp add: lead_3)
    then obtain b1 b2 t' where t: "t = b1 # b2 # t'"
      and r1: "(if unat b0 = 0xE0 then 0xA0 else 0x80) \<le> unat b1"
              "unat b1 \<le> (if unat b0 = 0xED then 0x9F else 0xBF)"
      and r2: "0x80 \<le> unat b2" "unat b2 \<le> 0xBF"
      and v: "v = 64 * (64 * (unat b0 - 0xE0) + unat b1 mod 64) + unat b2 mod 64"
      and k: "k = 1 + 2"
      by (rule trail_2_emitted)
    from scan_one_sound_3 [OF three r1 r2 v] show ?thesis by (simp add: Cons t k)
  next
    case four
    with assms Cons have "trail 3 (if unat b0 = 0xF0 then 0x90 else 0x80)
        (if unat b0 = 0xF4 then 0x8F else 0xBF) (unat b0 - 0xF0) 1 t = Emitted v k"
      by (simp add: lead_4)
    then obtain b1 b2 b3 t' where t: "t = b1 # b2 # b3 # t'"
      and r1: "(if unat b0 = 0xF0 then 0x90 else 0x80) \<le> unat b1"
              "unat b1 \<le> (if unat b0 = 0xF4 then 0x8F else 0xBF)"
      and r2: "0x80 \<le> unat b2" "unat b2 \<le> 0xBF"
      and r3: "0x80 \<le> unat b3" "unat b3 \<le> 0xBF"
      and v: "v = 64 * (64 * (64 * (unat b0 - 0xF0) + unat b1 mod 64) + unat b2 mod 64)
                + unat b3 mod 64"
      and k: "k = 1 + 3"
      by (rule trail_3_emitted)
    from scan_one_sound_4 [OF four r1 r2 r3 v] show ?thesis by (simp add: Cons t k)
  next
    case beyond
    with assms Cons show ?thesis by (simp add: lead_beyond)
  qed
qed

lemma trail_take_malformed:
  "trail n lo hi cp c xs = Malformed k \<Longrightarrow>
     trail n lo hi cp c (take (k - c) xs @ ys) = Malformed k"
proof (induction n lo hi cp c xs rule: trail.induct)
  case (3 n lo hi cp c b xs)
  show ?case
  proof (cases "lo \<le> unat b \<and> unat b \<le> hi")
    case True
    with "3.prems" have rest: "trail n 0x80 0xBF (64 * cp + unat b mod 64) (Suc c) xs = Malformed k"
      by simp
    from trail_rejected [OF rest] have "Suc c < k" by simp
    then have "k - c = Suc (k - Suc c)" by simp
    with True "3.IH" [OF True rest] show ?thesis by simp
  next
    case False
    with "3.prems" show ?thesis by auto
  qed
qed simp_all

lemma scan_one_take_malformed:
  assumes "scan_one xs = Malformed k"
  shows "scan_one (take k xs @ ys) = Malformed k"
proof (cases xs)
  case Nil
  with assms show ?thesis by simp
next
  case (Cons b0 t)
  from scan_one_malformed [OF assms] have "0 < k" by simp
  then have tk: "take k (b0 # t) = b0 # take (k - 1) t"
    by (cases k) simp_all
  show ?thesis
  proof (cases "unat b0 < 0x80")
    case True
    with assms Cons show ?thesis by simp
  next
    case high: False
    show ?thesis
    proof (cases "lead (unat b0)")
      case None
      with assms Cons high show ?thesis by (simp add: tk)
    next
      case (Some q)
      obtain n lo hi cp where q: "q = (n, lo, hi, cp)" by (cases q) auto
      from assms Cons high Some q have "trail n lo hi cp 1 t = Malformed k" by simp
      from trail_take_malformed [OF this, of ys] high Some q show ?thesis
        by (simp add: Cons tk)
    qed
  qed
qed

lemma malformed_not_viable:
  assumes "scan_one xs = Malformed k"
  shows "\<not> (\<exists>v. scalar_value v \<and> prefix (take k xs) (utf8_encode v))"
proof
  assume "\<exists>v. scalar_value v \<and> prefix (take k xs) (utf8_encode v)"
  then obtain v ys where v: "scalar_value v" and e: "utf8_encode v = take k xs @ ys"
    by (auto simp: prefix_def)
  from scan_one_encode [OF v, of "[]"] have "scan_one (take k xs @ ys) = Emitted v (length (utf8_encode v))"
    by (simp add: e)
  with scan_one_take_malformed [OF assms, of ys] show False by simp
qed

lemma trail_fill:
  "lo \<le> hi \<Longrightarrow> hi < 256 \<Longrightarrow>
     \<exists>v. trail (Suc n) lo hi cp c (of_nat lo # replicate n 0x80) = Emitted v (c + Suc n)"
proof (induction n arbitrary: lo hi cp c)
  case 0
  then show ?case by (simp add: unat_byte)
next
  case (Suc n)
  have "\<exists>v. trail (Suc n) 0x80 0xBF (64 * cp + lo mod 64) (Suc c) (of_nat 0x80 # replicate n 0x80)
          = Emitted v (Suc c + Suc n)"
    by (rule Suc.IH) simp_all
  with Suc.prems show ?case by (simp add: unat_byte)
qed

lemma trail_complete:
  "lo \<le> hi \<Longrightarrow> hi < 256 \<Longrightarrow> trail n lo hi cp c xs = Malformed k \<Longrightarrow>
     \<exists>ys v. ys \<noteq> [] \<and> length (take (k - c - 1) xs @ ys) = n \<and>
        trail n lo hi cp c (take (k - c - 1) xs @ ys) = Emitted v (c + n)"
proof (induction n lo hi cp c xs rule: trail.induct)
  case (3 n lo hi cp c b xs)
  show ?case
  proof (cases "lo \<le> unat b \<and> unat b \<le> hi")
    case True
    with "3.prems" have rest: "trail n 0x80 0xBF (64 * cp + unat b mod 64) (Suc c) xs = Malformed k"
      by simp
    from trail_rejected [OF rest] have "Suc c < k" by simp
    then have k: "k - c - 1 = Suc (k - Suc c - 1)" by simp
    from "3.IH" [OF True _ _ rest]
    obtain ys v where "ys \<noteq> []" "length (take (k - Suc c - 1) xs @ ys) = n"
      "trail n 0x80 0xBF (64 * cp + unat b mod 64) (Suc c) (take (k - Suc c - 1) xs @ ys)
         = Emitted v (Suc c + n)"
      by auto
    with True show ?thesis unfolding k by (intro exI [of _ ys] exI [of _ v]) simp
  next
    case False
    with "3.prems" have k: "k = Suc c" by auto
    from trail_fill [OF "3.prems"(1,2), of n cp c]
    obtain v where "trail (Suc n) lo hi cp c (of_nat lo # replicate n 0x80) = Emitted v (c + Suc n)"
      by auto
    then show ?thesis unfolding k
      by (intro exI [of _ "of_nat lo # replicate n 0x80"] exI [of _ v]) simp
  qed
qed simp_all

lemma trail_short:
  "trail n lo hi cp c (xs @ ys) = Emitted v k \<Longrightarrow> length xs < n \<Longrightarrow>
     trail n lo hi cp c xs = Truncated (c + length xs)"
proof (induction n arbitrary: lo hi cp c xs)
  case 0
  then show ?case by simp
next
  case (Suc n)
  show ?case
  proof (cases xs)
    case Nil
    then show ?thesis by simp
  next
    case (Cons b xs')
    with Suc.prems have r: "lo \<le> unat b \<and> unat b \<le> hi"
      and rest: "trail n 0x80 0xBF (64 * cp + unat b mod 64) (Suc c) (xs' @ ys) = Emitted v k"
      by (auto split: if_splits)
    from Suc.prems Cons have "length xs' < n" by simp
    from Suc.IH [OF rest this] r show ?thesis by (simp add: Cons)
  qed
qed

lemma lead_range:
  assumes "lead u = Some (n, lo, hi, cp)"
  shows "lo \<le> hi \<and> hi < 256"
proof -
  consider "u < 0xC2" | "0xC2 \<le> u" "u \<le> 0xDF" | "0xE0 \<le> u" "u \<le> 0xEF"
    | "0xF0 \<le> u" "u \<le> 0xF4" | "0xF5 \<le> u"
    by linarith
  then show ?thesis
  proof cases
    case 1
    with assms show ?thesis by (simp add: lead_stray)
  next
    case 2
    with assms show ?thesis by (simp add: lead_2)
  next
    case 3
    with assms show ?thesis by (auto simp: lead_3)
  next
    case 4
    with assms show ?thesis by (auto simp: lead_4)
  next
    case 5
    with assms show ?thesis by (simp add: lead_beyond)
  qed
qed

lemma malformed_before_viable:
  assumes "scan_one xs = Malformed k"
  shows "\<exists>v. scalar_value v \<and> strict_prefix (take (k - 1) xs) (utf8_encode v)"
proof (cases xs)
  case Nil
  with assms show ?thesis by simp
next
  case (Cons b0 t)
  have zero: "scalar_value 0 \<and> strict_prefix [] (utf8_encode 0)"
    by (simp add: scalar_value_def utf8_encode_def)
  show ?thesis
  proof (cases "unat b0 < 0x80")
    case True
    with assms Cons show ?thesis by simp
  next
    case high: False
    show ?thesis
    proof (cases "lead (unat b0)")
      case None
      with assms Cons high have "k = 1" by simp
      with zero show ?thesis by auto
    next
      case (Some q)
      obtain n lo hi cp where q: "q = (n, lo, hi, cp)" by (cases q) auto
      from assms Cons high Some q have tr: "trail n lo hi cp 1 t = Malformed k" by simp
      from trail_rejected [OF tr] have k: "1 < k" by simp
      from lead_range [OF Some [unfolded q]] have "lo \<le> hi" "hi < 256" by simp_all
      from trail_complete [OF this tr]
      obtain ys v where ys: "ys \<noteq> []" and len: "length (take (k - 1 - 1) t @ ys) = n"
        and em: "trail n lo hi cp 1 (take (k - 1 - 1) t @ ys) = Emitted v (1 + n)"
        by auto
      define w where "w = take (k - 1 - 1) t @ ys"
      define zs where "zs = b0 # w"
      have lw: "length w = n" using len by (simp only: w_def)
      have "scan_one zs = Emitted v (1 + n)"
        using high Some q em by (simp add: zs_def w_def)
      from scan_one_sound [OF this] have v: "scalar_value v" and "take (1 + n) zs = utf8_encode v"
        by simp_all
      moreover have "take (1 + n) zs = zs" using lw by (simp add: zs_def)
      ultimately have enc: "utf8_encode v = zs" by simp
      have "take (k - 1) xs = b0 # take (k - 1 - 1) t"
        unfolding Cons using k by (cases "k - 1") simp_all
      with ys have "strict_prefix (take (k - 1) xs) zs"
        by (simp add: zs_def w_def strict_prefix_def)
      with v enc show ?thesis by auto
    qed
  qed
qed

lemma scan_one_cut:
  assumes v: "scalar_value v" and t: "strict_prefix t (utf8_encode v)" and ne: "t \<noteq> []"
  shows "scan_one t = Truncated (length t)"
proof -
  from t obtain ys where e: "utf8_encode v = t @ ys" and ys: "ys \<noteq> []"
    by (auto simp: strict_prefix_def prefix_def)
  from ne obtain b0 t' where t': "t = b0 # t'" by (cases t) auto
  from scan_one_encode [OF v, of "[]"]
  have em: "scan_one (b0 # t' @ ys) = Emitted v (length (b0 # t' @ ys))"
    by (simp add: e t')
  show ?thesis
  proof (cases "unat b0 < 0x80")
    case True
    with em ys show ?thesis by simp
  next
    case high: False
    show ?thesis
    proof (cases "lead (unat b0)")
      case None
      with em high show ?thesis by simp
    next
      case (Some q)
      obtain n lo hi cp where q: "q = (n, lo, hi, cp)" by (cases q) auto
      from em high Some q
      have tr: "trail n lo hi cp 1 (t' @ ys) = Emitted v (length (b0 # t' @ ys))" by simp
      from trail_consumed [OF tr] ys have "length t' < n" by (cases ys) auto
      from trail_short [OF tr this] high Some q show ?thesis by (simp add: t')
    qed
  qed
qed

section \<open>The shape of every result\<close>

lemma scan_shape:
  "\<exists>q. q = length (concat (map utf8_encode (snd (scan xs)))) \<and> q \<le> fst (scan xs) \<and>
       take q xs = concat (map utf8_encode (snd (scan xs))) \<and>
       (\<forall>v \<in> set (snd (scan xs)). scalar_value v) \<and>
       (scan_one (drop q xs) = Malformed (fst (scan xs) - q) \<or>
        scan_one (drop q xs) = Truncated (fst (scan xs) - q))"
proof (induction xs rule: scan.induct)
  case (1 xs)
  show ?case
  proof (cases "scan_one xs")
    case (Emitted v k)
    define p' where "p' = fst (scan (drop k xs))"
    define vs' where "vs' = snd (scan (drop k xs))"
    define q' where "q' = length (concat (map utf8_encode vs'))"
    have sc: "scan xs = (k + p', v # vs')"
      by (simp add: scan.simps [of xs] Emitted p'_def vs'_def)
    from scan_one_sound [OF Emitted] have v: "scalar_value v" and tk: "take k xs = utf8_encode v"
      by simp_all
    from scan_one_emitted [OF Emitted] have k: "k \<le> length xs" by simp
    have lk: "length (utf8_encode v) = k"
      using arg_cong [OF tk, of length] k by simp
    from "1.IH" [OF Emitted]
    have q': "q' \<le> p'" and tq: "take q' (drop k xs) = concat (map utf8_encode vs')"
      and sv: "\<forall>v \<in> set vs'. scalar_value v"
      and st: "scan_one (drop q' (drop k xs)) = Malformed (p' - q') \<or>
               scan_one (drop q' (drop k xs)) = Truncated (p' - q')"
      by (simp_all add: p'_def vs'_def q'_def)
    have "take (k + q') xs = take k xs @ take q' (drop k xs)" by (rule take_add)
    then have t: "take (k + q') xs = concat (map utf8_encode (v # vs'))"
      by (simp add: tk tq)
    have d: "drop (k + q') xs = drop q' (drop k xs)" by (simp add: add.commute)
    have l: "length (concat (map utf8_encode (v # vs'))) = k + q'"
      by (simp add: lk q'_def)
    show ?thesis
      unfolding sc fst_conv snd_conv l
      using q' t v sv st by (simp add: d)
  next
    case (Malformed k)
    then show ?thesis by (simp add: scan.simps [of xs])
  next
    case (Truncated k)
    then show ?thesis by (simp add: scan.simps [of xs])
  qed
qed

lemma scalar_value_unat:
  "scalar_value v \<Longrightarrow> unat (of_nat v :: char32_t) = v"
  by (simp add: scalar_value_def unat_of_nat)

lemma decode_shape:
  obtains p vs q where
    "decode bs 0 (length bs) [] = Inr (p, map of_nat vs)"
    "map unat (map of_nat vs :: char32_t list) = vs"
    "\<forall>v \<in> set vs. scalar_value v"
    "q = length (concat (map utf8_encode vs))" "q \<le> p" "p \<le> length bs"
    "take q bs = concat (map utf8_encode vs)"
    "scan_one (drop q bs) = Malformed (p - q) \<or> scan_one (drop q bs) = Truncated (p - q)"
proof -
  from scan_shape [of bs] obtain q where
    q: "q = length (concat (map utf8_encode (snd (scan bs))))" "q \<le> fst (scan bs)"
      "take q bs = concat (map utf8_encode (snd (scan bs)))"
      "\<forall>v \<in> set (snd (scan bs)). scalar_value v"
      "scan_one (drop q bs) = Malformed (fst (scan bs) - q) \<or>
        scan_one (drop q bs) = Truncated (fst (scan bs) - q)"
    by blast
  have d: "decode bs 0 (length bs) [] = Inr (fst (scan bs), map of_nat (snd (scan bs)))"
    using decode_scan_all [of 0 bs "[]"] by simp
  have u: "map unat (map of_nat (snd (scan bs)) :: char32_t list) = snd (scan bs)"
    using q(4) by (simp add: map_idI scalar_value_unat)
  show ?thesis
    using that [OF d u q(4) q(1) q(2) scan_bounds q(3) q(5)] .
qed

lemma initial_state_beyond:
  fixes octet :: uint8_t
  assumes "0xF5 \<le> octet"
  shows "subscript InitialStateOutOfBounds initial_state (uint octet - 0xC2) = Inr (octet, ERR)"
proof -
  from assms have u: "0xF5 \<le> unat octet" by (simp add: word_le_nat_alt)
  then have "\<not> octet < 0xC2" by (simp add: word_less_nat_alt)
  from subscript_initial_state [OF this] u show ?thesis
    by (simp add: initial_state_of_leader)
qed

lemma scan_cut:
  assumes "scalar_value v" and "strict_prefix t (utf8_encode v)" and "t \<noteq> []"
  shows "scan t = (length t, [])"
  by (simp add: scan.simps [of t] scan_one_cut [OF assms])






section \<open>Ranges that end before the end of the sequence\<close>

text \<open>
  The lemmas above take the whole list as the input range. A range \<open>[input, endp)\<close>
  inside a longer list behaves as the list cut at \<open>endp\<close>: no code unit at or after
  \<open>endp\<close> is read.
\<close>

lemma cont_loop_take:
  "i \<le> e \<Longrightarrow> e \<le> length bs \<Longrightarrow>
     cont_loop bs i e cp s = cont_loop (take e bs) i e cp s"
proof (induction "e - i" arbitrary: i cp s rule: less_induct)
  case less
  show ?case
  proof (cases "state_value s > 12")
    case False
    then show ?thesis by (simp add: cont_loop_stop)
  next
    case live: True
    show ?thesis
    proof (cases "i = e")
      case True
      with live show ?thesis by (simp add: cont_loop_eof)
    next
      case False
      with less.prems have i: "i < length bs" "i < length (take e bs)" "i < e" by simp_all
      have nth: "take e bs ! i = bs ! i" using i by simp
      have "e - Suc i < e - i" "Suc i \<le> e" using i by simp_all
      from less.hyps [OF this less.prems(2)] show ?thesis
        unfolding cont_loop_step [OF live i(1) False] cont_loop_step [OF live i(2) False] nth .
    qed
  qed
qed

lemma decode_unfold_range:
  assumes "i < length bs" and "i \<noteq> e"
  shows "decode bs i e out =
     (if bs ! i < 0x80 then decode bs (Suc i) e (out @ [ucast (bs ! i)])
      else if bs ! i < 0xC2 then Inr (Suc i, out)
      else (case cont_loop bs (Suc i) e
                   (ucast (fst (initial_state ! (unat (bs ! i) - 0xC2))))
                   (snd (initial_state ! (unat (bs ! i) - 0xC2))) of
              Inl f \<Rightarrow> Inl f
            | Inr (input2, code_point, state') \<Rightarrow>
                if state' = ERR then Inr (input2, out)
                else decode bs input2 e (out @ [code_point])))"
  using assms unfolding decode.simps [of bs i] write_out_def
  by (simp add: check_def read_def subscript_initial_state split: prod.splits)

lemma decode_take:
  "i \<le> e \<Longrightarrow> e \<le> length bs \<Longrightarrow> decode bs i e out = decode (take e bs) i e out"
proof (induction "e - i" arbitrary: i out rule: less_induct)
  case less
  show ?case
  proof (cases "i = e")
    case True
    then show ?thesis by (simp add: decode_at_end)
  next
    case False
    with less.prems have i: "i < length bs" "i < length (take e bs)" "i < e" by simp_all
    have nth: "take e bs ! i = bs ! i" using i by simp
    have le: "length (take e bs) = e" using less.prems by simp
    define b where "b = bs ! i"
    define cp0 :: char32_t where "cp0 = ucast (fst (initial_state ! (unat b - 0xC2)))"
    define s0 where "s0 = snd (initial_state ! (unat b - 0xC2))"
    have cl: "cont_loop bs (Suc i) e cp0 s0 = cont_loop (take e bs) (Suc i) e cp0 s0"
      using i less.prems by (intro cont_loop_take) simp_all
    have "Suc i \<le> length (take e bs)" using i by simp
    from cont_loop_total [OF this, of cp0 s0, unfolded le]
    obtain i' cp' s' where r: "cont_loop (take e bs) (Suc i) e cp0 s0 = Inr (i', cp', s')"
      and i': "Suc i \<le> i'" "i' \<le> e"
      by blast
    have rec1: "decode bs (Suc i) e out' = decode (take e bs) (Suc i) e out'" for out'
      using i less.prems by (intro less.hyps) simp_all
    have rec2: "decode bs i' e out' = decode (take e bs) i' e out'" for out'
      using i i' less.prems by (intro less.hyps) simp_all
    show ?thesis
      unfolding decode_unfold_range [OF i(1) False] decode_unfold_range [OF i(2) False] nth
      unfolding b_def [symmetric] cp0_def [symmetric] s0_def [symmetric] cl r
      by (simp add: rec1 rec2)
  qed
qed

section \<open>Fixed inputs\<close>

text \<open>
  C2. On the two code units \<^verbatim>\<open>0xC0 0x80\<close> (the overlong form of U+0000) the
  claim has \<open>decode\<close> return position 2 with nothing written. The code returns
  position 1: the guard \<^verbatim>\<open>if (octet < 0xC2) return input;\<close> fires on the leader
  \<^verbatim>\<open>0xC0\<close> itself, before the second code unit is read.
\<close>

theorem overlong_nul_not_position_2:
  "decode [0xC0, 0x80] 0 2 [] \<noteq> Inr (2, [])"
  by code_simp

text \<open>
  C2, amended. On \<^verbatim>\<open>0xC0 0x80\<close>, \<open>decode\<close> returns position 1 (only the leader
  has been read) and writes no code point.
\<close>

theorem overlong_nul_stops_at_leader:
  "decode [0xC0, 0x80] 0 2 [] = Inr (1, [])"
  by code_simp

text \<open>
  C5. On the three code units \<^verbatim>\<open>0xED 0xA0 0x80\<close> (the surrogate U+D800),
  \<open>decode\<close> returns position 2, after the leader and the second code unit
  \<^verbatim>\<open>0xA0\<close>, and writes no code point.
\<close>

theorem surrogate_D800_rejected:
  "decode [0xED, 0xA0, 0x80] 0 3 [] = Inr (2, [])"
  by code_simp

section \<open>Round trip\<close>

text \<open>
  C1. For every Unicode scalar value \<open>v\<close> (at most \<^verbatim>\<open>0x10FFFF\<close>, not a surrogate),
  \<open>decode\<close> run on the code units that the reference encoder produces for \<open>v\<close> writes
  exactly the one code point \<open>v\<close> and returns the end of those code units: the whole
  encoding is consumed.
\<close>

theorem decode_utf8_encode:
  assumes "v \<le> 0x10FFFF" and "\<not> (0xD800 \<le> v \<and> v \<le> 0xDFFF)"
  shows "decode (utf8_encode v) 0 (length (utf8_encode v)) []
           = Inr (length (utf8_encode v), [of_nat v])"
proof -
  from assms have "scalar_value v" by (simp add: scalar_value_def)
  from scan_encode_append [OF this, of "[]"]
  have "scan (utf8_encode v) = (length (utf8_encode v), [v])" by (simp add: scan_Nil)
  then show ?thesis
    using decode_scan_all [of 0 "utf8_encode v" "[]"] by simp
qed

text \<open>The round trip at the euro sign U+20AC, whose encoding is \<^verbatim>\<open>E2 82 AC\<close>.\<close>

theorem decode_utf8_encode_witness:
  "(0x20AC :: nat) \<le> 0x10FFFF \<and> \<not> (0xD800 \<le> (0x20AC :: nat) \<and> (0x20AC :: nat) \<le> 0xDFFF) \<and>
   utf8_encode 0x20AC = [0xE2, 0x82, 0xAC] \<and>
   decode [0xE2, 0x82, 0xAC] 0 3 [] = Inr (3, [0x20AC])"
proof -
  have enc: "utf8_encode 0x20AC = [0xE2, 0x82, 0xAC]"
    by (simp add: utf8_encode_def)
  have len: "length [0xE2, 0x82, 0xAC :: uint8_t] = 3" by simp
  from decode_utf8_encode [of "0x20AC"] show ?thesis
    unfolding enc len by simp
qed

section \<open>The ASCII fast path\<close>

text \<open>
  C7. For every input of \<open>N\<close> code units all below \<^verbatim>\<open>0x80\<close>, \<open>decode\<close> writes \<open>N\<close> code
  points, each the corresponding code unit widened to 32 bits, in input order, and
  returns the end of the input.
\<close>

theorem decode_ascii:
  assumes "\<forall>b \<in> set bs. b < 0x80"
  shows "decode bs 0 (length bs) [] = Inr (length bs, map ucast bs)"
  using decode_scan_all [of 0 bs "[]"] scan_ascii [OF assms]
  by (simp add: comp_def)

text \<open>The fast path on \<^verbatim>\<open>"Hi"\<close>.\<close>

theorem decode_ascii_witness:
  "(0x48 :: uint8_t) < 0x80 \<and> (0x69 :: uint8_t) < 0x80 \<and>
   decode [0x48, 0x69] 0 2 [] = Inr (2, [0x48, 0x69])"
proof -
  have len: "length [0x48, 0x69 :: uint8_t] = 2" by simp
  from decode_ascii [of "[0x48, 0x69]"] show ?thesis
    unfolding len by simp
qed

section \<open>Termination and the returned position\<close>

text \<open>
  C9. \<open>decode\<close> terminates on every finite input. Both loops are total functions here:
  their termination is proved where they are defined, the measure being the number of
  code units not yet read (and, for the inner loop at the end of the input, the state,
  which is forced to \<^verbatim>\<open>ERR\<close>). The iterator moves only in \<open>read\<close>, by one code unit, so
  no code unit is read twice and the position returned, less the start, is the number
  of code units read. On any range \<open>[start, endp)\<close> of the input, \<open>decode\<close> returns a
  position \<open>p\<close> with \<open>start \<le> p \<le> endp\<close>, having read at least one code unit when any
  was left; the inner loop, from any state and code point, returns a position in the
  same range and leaves in \<^verbatim>\<open>END\<close> or \<^verbatim>\<open>ERR\<close>. Neither reads outside the range.
\<close>

theorem decode_terminates_in_range:
  assumes "start \<le> endp" and "endp \<le> length bs"
  shows "(\<exists>p out'. decode bs start endp out = Inr (p, out') \<and>
            start \<le> p \<and> p \<le> endp \<and> (start < endp \<longrightarrow> start < p)) \<and>
         (\<exists>i' cp' s'. cont_loop bs start endp cp s = Inr (i', cp', s') \<and>
            start \<le> i' \<and> i' \<le> endp \<and> (s' = END \<or> s' = ERR))"
proof
  define xs where "xs = take endp bs"
  have len: "length xs = endp" using assms by (simp add: xs_def)
  have d: "decode bs start endp out = decode xs start endp out"
    unfolding xs_def using assms by (rule decode_take)
  have c: "cont_loop bs start endp cp s = cont_loop xs start endp cp s"
    unfolding xs_def using assms by (rule cont_loop_take)
  have start: "start \<le> length xs" using assms len by simp
  have "fst (scan (drop start xs)) \<le> endp - start"
    using scan_bounds [of "drop start xs"] len by simp
  moreover have "start < endp \<longrightarrow> 0 < fst (scan (drop start xs))"
    using len by (simp add: scan_progress)
  moreover note decode_scan_all [OF start, of out, unfolded len]
  ultimately
  show "\<exists>p out'. decode bs start endp out = Inr (p, out') \<and>
            start \<le> p \<and> p \<le> endp \<and> (start < endp \<longrightarrow> start < p)"
    unfolding d using assms by simp
  show "\<exists>i' cp' s'. cont_loop bs start endp cp s = Inr (i', cp', s') \<and>
            start \<le> i' \<and> i' \<le> endp \<and> (s' = END \<or> s' = ERR)"
    unfolding c using cont_loop_total [OF start, of cp s, unfolded len] .
qed

text \<open>
  The same on the range \<open>[1, 3)\<close> of \<^verbatim>\<open>41 F0 9F 98 80\<close>, which holds the first two code
  units of a sequence of four, with the inner loop started in \<^verbatim>\<open>CS3\<close>.
\<close>

theorem decode_terminates_in_range_witness:
  "(1 :: nat) \<le> 3 \<and> (3 :: nat) \<le> length [0x41, 0xF0, 0x9F, 0x98, 0x80 :: uint8_t] \<and>
   (\<exists>p out'. decode [0x41, 0xF0, 0x9F, 0x98, 0x80] 1 3 [] = Inr (p, out') \<and>
      1 \<le> p \<and> p \<le> 3 \<and> ((1 :: nat) < 3 \<longrightarrow> 1 < p)) \<and>
   (\<exists>i' cp' s'. cont_loop [0x41, 0xF0, 0x9F, 0x98, 0x80] 1 3 0 CS3 = Inr (i', cp', s') \<and>
      1 \<le> i' \<and> i' \<le> 3 \<and> (s' = END \<or> s' = ERR))"
  using decode_terminates_in_range [of 1 3 "[0x41, 0xF0, 0x9F, 0x98, 0x80]" "[]" 0 CS3] by simp

section \<open>Stopping early\<close>

text \<open>
  C3. \<open>decode\<close> raises nothing: on every input it returns a position and the output,
  never a fault. When the position \<open>p\<close> it returns is not the end of the input, there
  is a \<open>q < p\<close> such that the code points written are scalar values whose encodings,
  in order, are exactly the first \<open>q\<close> code units (every valid sequence before the
  failure has been written, and nothing for the sequence that failed); the code units
  from \<open>q\<close> up to \<open>p - 1\<close> exclusive still begin the encoding of some scalar value,
  and those from \<open>q\<close> up to \<open>p\<close> exclusive begin none. So the code unit at \<open>p - 1\<close> is
  the offending one, and the position returned is one past it.
\<close>

theorem decode_stops_past_offending_unit:
  "\<exists>p out. decode bs 0 (length bs) [] = Inr (p, out) \<and>
     (p \<noteq> length bs \<longrightarrow>
        (\<exists>q. q < p \<and> p < length bs \<and>
           (\<forall>c \<in> set out. scalar_value (unat c)) \<and>
           take q bs = concat (map (\<lambda>c. utf8_encode (unat c)) out) \<and>
           (\<exists>v. scalar_value v \<and> strict_prefix (take (p - 1 - q) (drop q bs)) (utf8_encode v)) \<and>
           \<not> (\<exists>v. scalar_value v \<and> prefix (take (p - q) (drop q bs)) (utf8_encode v))))"
proof -
  obtain p vs q where d: "decode bs 0 (length bs) [] = Inr (p, map of_nat vs)"
    and u: "map unat (map of_nat vs :: char32_t list) = vs"
    and sv: "\<forall>v \<in> set vs. scalar_value v"
    and q: "q \<le> p" "p \<le> length bs" "take q bs = concat (map utf8_encode vs)"
    and st: "scan_one (drop q bs) = Malformed (p - q) \<or> scan_one (drop q bs) = Truncated (p - q)"
    by (rule decode_shape)
  define out :: "char32_t list" where "out = map of_nat vs"
  have vs: "vs = map unat out" using u by (simp add: out_def)
  have enc: "concat (map (\<lambda>c. utf8_encode (unat c)) out) = concat (map utf8_encode vs)"
    unfolding vs by (simp add: comp_def)
  have sc: "\<forall>c \<in> set out. scalar_value (unat c)"
    using sv unfolding vs by simp
  have "\<exists>q. q < p \<and> p < length bs \<and>
           (\<forall>c \<in> set out. scalar_value (unat c)) \<and>
           take q bs = concat (map (\<lambda>c. utf8_encode (unat c)) out) \<and>
           (\<exists>v. scalar_value v \<and> strict_prefix (take (p - 1 - q) (drop q bs)) (utf8_encode v)) \<and>
           \<not> (\<exists>v. scalar_value v \<and> prefix (take (p - q) (drop q bs)) (utf8_encode v))"
    if early: "p \<noteq> length bs"
  proof -
    have "scan_one (drop q bs) \<noteq> Truncated (p - q)"
    proof
      assume "scan_one (drop q bs) = Truncated (p - q)"
      from scan_one_truncated [OF this] q early show False by simp
    qed
    with st have m: "scan_one (drop q bs) = Malformed (p - q)" by simp
    from scan_one_malformed [OF m] have "q < p" by simp
    moreover from early q have "p < length bs" by simp
    moreover from malformed_before_viable [OF m]
    have "\<exists>v. scalar_value v \<and> strict_prefix (take (p - 1 - q) (drop q bs)) (utf8_encode v)"
      by (simp add: diff_commute)
    moreover note malformed_not_viable [OF m] sc q(3) [folded enc]
    ultimately show ?thesis by blast
  qed
  with d show ?thesis unfolding out_def [symmetric] by blast
qed

text \<open>
  On \<^verbatim>\<open>41 C2 41 42\<close> the leader \<^verbatim>\<open>C2\<close> is followed by \<^verbatim>\<open>41\<close>, which is no trailing code
  unit: \<open>decode\<close> returns 3, one past it, with \<^verbatim>\<open>U+0041\<close> written.
\<close>

theorem decode_stops_past_offending_unit_witness:
  "decode [0x41, 0xC2, 0x41, 0x42] 0 (length [0x41, 0xC2, 0x41, 0x42 :: uint8_t]) [] = Inr (3, [0x41]) \<and>
   3 \<noteq> length [0x41, 0xC2, 0x41, 0x42 :: uint8_t] \<and>
   (\<exists>q. q < 3 \<and> 3 < length [0x41, 0xC2, 0x41, 0x42 :: uint8_t] \<and>
      (\<forall>c \<in> set [0x41 :: char32_t]. scalar_value (unat c)) \<and>
      take q [0x41, 0xC2, 0x41, 0x42 :: uint8_t] = concat (map (\<lambda>c. utf8_encode (unat c)) [0x41 :: char32_t]) \<and>
      (\<exists>v. scalar_value v \<and>
         strict_prefix (take (3 - 1 - q) (drop q [0x41, 0xC2, 0x41, 0x42 :: uint8_t])) (utf8_encode v)) \<and>
      \<not> (\<exists>v. scalar_value v \<and>
         prefix (take (3 - q) (drop q [0x41, 0xC2, 0x41, 0x42 :: uint8_t])) (utf8_encode v)))"
proof -
  have len: "length [0x41, 0xC2, 0x41, 0x42 :: uint8_t] = 4" by simp
  have d: "decode [0x41, 0xC2, 0x41, 0x42] 0 4 [] = Inr (3, [0x41])" by code_simp
  from decode_stops_past_offending_unit [of "[0x41, 0xC2, 0x41, 0x42]"]
  show ?thesis unfolding len d by simp
qed

section \<open>What is written is a scalar value in its shortest form\<close>

text \<open>
  C4. Every code point that \<open>decode\<close> writes is a Unicode scalar value (at most
  \<^verbatim>\<open>0x10FFFF\<close> and no surrogate), and it is never the payload of an overlong form:
  the code units consumed for the code points written are, in order, their encodings
  by the reference encoder, which are the shortest forms. The model of \<open>decode\<close> above
  compares no code point with anything after assembling it; what rejects the rest is
  in the tables: the initial state of every leader from \<^verbatim>\<open>0xF5\<close> to \<^verbatim>\<open>0xFF\<close> is
  \<^verbatim>\<open>ERR\<close>, the leaders \<^verbatim>\<open>E0\<close>, \<^verbatim>\<open>ED\<close>, \<^verbatim>\<open>F0\<close> and \<^verbatim>\<open>F4\<close> start in the restricted states
  \<^verbatim>\<open>P3A\<close>, \<^verbatim>\<open>P3B\<close>, \<^verbatim>\<open>P4A\<close> and \<^verbatim>\<open>P4B\<close>, and each of these accepts only its narrowed
  range of second code units. (The leaders \<^verbatim>\<open>C0\<close> and \<^verbatim>\<open>C1\<close> of the overlong forms of
  two code units never reach a table: the guard \<^verbatim>\<open>octet < 0xC2\<close> returns before the
  lookup, and \<^verbatim>\<open>initial_state\<close> starts at \<^verbatim>\<open>0xC2\<close>.)
\<close>

theorem decode_emits_shortest_form_scalars:
  assumes "decode bs 0 (length bs) [] = Inr (p, out)"
  shows "(\<forall>c \<in> set out. unat c \<le> 0x10FFFF \<and> \<not> (0xD800 \<le> unat c \<and> unat c \<le> 0xDFFF)) \<and>
         prefix (concat (map (\<lambda>c. utf8_encode (unat c)) out)) bs \<and>
         length (concat (map (\<lambda>c. utf8_encode (unat c)) out)) \<le> p \<and>
         (\<forall>octet :: uint8_t. 0xF5 \<le> octet \<longrightarrow>
            subscript InitialStateOutOfBounds initial_state (uint octet - 0xC2) = Inr (octet, ERR)) \<and>
         subscript InitialStateOutOfBounds initial_state (uint (0xE0 :: uint8_t) - 0xC2) = Inr (0x00, P3A) \<and>
         subscript InitialStateOutOfBounds initial_state (uint (0xED :: uint8_t) - 0xC2) = Inr (0x0D, P3B) \<and>
         subscript InitialStateOutOfBounds initial_state (uint (0xF0 :: uint8_t) - 0xC2) = Inr (0x00, P4A) \<and>
         subscript InitialStateOutOfBounds initial_state (uint (0xF4 :: uint8_t) - 0xC2) = Inr (0x04, P4B) \<and>
         (\<forall>b :: uint8_t.
            subscript StateTransitionOutOfBounds state_transition
                (state_value P3A + class_value (octet_category ! unat b))
              = Inr (if 0xA0 \<le> unat b \<and> unat b \<le> 0xBF then CS1 else ERR) \<and>
            subscript StateTransitionOutOfBounds state_transition
                (state_value P3B + class_value (octet_category ! unat b))
              = Inr (if 0x80 \<le> unat b \<and> unat b \<le> 0x9F then CS1 else ERR) \<and>
            subscript StateTransitionOutOfBounds state_transition
                (state_value P4A + class_value (octet_category ! unat b))
              = Inr (if 0x90 \<le> unat b \<and> unat b \<le> 0xBF then CS2 else ERR) \<and>
            subscript StateTransitionOutOfBounds state_transition
                (state_value P4B + class_value (octet_category ! unat b))
              = Inr (if 0x80 \<le> unat b \<and> unat b \<le> 0x8F then CS2 else ERR))"
proof -
  obtain p' vs q where d: "decode bs 0 (length bs) [] = Inr (p', map of_nat vs)"
    and u: "map unat (map of_nat vs :: char32_t list) = vs"
    and sv: "\<forall>v \<in> set vs. scalar_value v"
    and q: "q = length (concat (map utf8_encode vs))" "q \<le> p'"
       "take q bs = concat (map utf8_encode vs)"
    by (rule decode_shape)
  from d assms have p: "p' = p" and out: "out = map of_nat vs" by simp_all
  have vs: "vs = map unat out" using u by (simp add: out)
  have enc: "concat (map (\<lambda>c. utf8_encode (unat c)) out) = concat (map utf8_encode vs)"
    unfolding vs by (simp add: comp_def)
  have 1: "\<forall>c \<in> set out. unat c \<le> 0x10FFFF \<and> \<not> (0xD800 \<le> unat c \<and> unat c \<le> 0xDFFF)"
    using sv unfolding vs by (simp add: scalar_value_def)
  have 2: "prefix (concat (map (\<lambda>c. utf8_encode (unat c)) out)) bs"
    unfolding enc q(3) [symmetric] by (rule take_is_prefix)
  have 3: "length (concat (map (\<lambda>c. utf8_encode (unat c)) out)) \<le> p"
    unfolding enc using q(1,2) p by simp
  have 4: "\<forall>octet :: uint8_t. 0xF5 \<le> octet \<longrightarrow>
      subscript InitialStateOutOfBounds initial_state (uint octet - 0xC2) = Inr (octet, ERR)"
    by (simp add: initial_state_beyond)
  have 5: "subscript InitialStateOutOfBounds initial_state (uint (0xE0 :: uint8_t) - 0xC2) = Inr (0x00, P3A)"
    "subscript InitialStateOutOfBounds initial_state (uint (0xED :: uint8_t) - 0xC2) = Inr (0x0D, P3B)"
    "subscript InitialStateOutOfBounds initial_state (uint (0xF0 :: uint8_t) - 0xC2) = Inr (0x00, P4A)"
    "subscript InitialStateOutOfBounds initial_state (uint (0xF4 :: uint8_t) - 0xC2) = Inr (0x04, P4B)"
    by (simp_all add: subscript_def initial_state_def)
  have 6: "subscript StateTransitionOutOfBounds state_transition
                (state_value P3A + class_value (octet_category ! unat b))
              = Inr (if 0xA0 \<le> unat b \<and> unat b \<le> 0xBF then CS1 else ERR)"
    "subscript StateTransitionOutOfBounds state_transition
                (state_value P3B + class_value (octet_category ! unat b))
              = Inr (if 0x80 \<le> unat b \<and> unat b \<le> 0x9F then CS1 else ERR)"
    "subscript StateTransitionOutOfBounds state_transition
                (state_value P4A + class_value (octet_category ! unat b))
              = Inr (if 0x90 \<le> unat b \<and> unat b \<le> 0xBF then CS2 else ERR)"
    "subscript StateTransitionOutOfBounds state_transition
                (state_value P4B + class_value (octet_category ! unat b))
              = Inr (if 0x80 \<le> unat b \<and> unat b \<le> 0x8F then CS2 else ERR)"
    for b :: uint8_t
    by (simp_all only: subscript_state_transition rows categories) auto
  from 1 2 3 4 5 6 show ?thesis by blast
qed

text \<open>
  The euro sign followed by the encoding of the surrogate \<^verbatim>\<open>U+D800\<close>: one code point
  is written, and the leader \<^verbatim>\<open>F8\<close> has the initial state \<^verbatim>\<open>ERR\<close>.
\<close>

theorem decode_emits_shortest_form_scalars_witness:
  "decode [0xE2, 0x82, 0xAC, 0xED, 0xA0, 0x80] 0
      (length [0xE2, 0x82, 0xAC, 0xED, 0xA0, 0x80 :: uint8_t]) [] = Inr (5, [0x20AC]) \<and>
   unat (0x20AC :: char32_t) \<le> 0x10FFFF \<and>
   \<not> (0xD800 \<le> unat (0x20AC :: char32_t) \<and> unat (0x20AC :: char32_t) \<le> 0xDFFF) \<and>
   utf8_encode (unat (0x20AC :: char32_t)) = [0xE2, 0x82, 0xAC] \<and>
   prefix (concat (map (\<lambda>c. utf8_encode (unat c)) [0x20AC :: char32_t]))
     [0xE2, 0x82, 0xAC, 0xED, 0xA0, 0x80] \<and>
   length (concat (map (\<lambda>c. utf8_encode (unat c)) [0x20AC :: char32_t])) \<le> 5 \<and>
   (0xF5 :: uint8_t) \<le> 0xF8 \<and>
   subscript InitialStateOutOfBounds initial_state (uint (0xF8 :: uint8_t) - 0xC2) = Inr (0xF8, ERR)"
proof -
  have len: "length [0xE2, 0x82, 0xAC, 0xED, 0xA0, 0x80 :: uint8_t] = 6" by simp
  have d: "decode [0xE2, 0x82, 0xAC, 0xED, 0xA0, 0x80] 0 6 [] = Inr (5, [0x20AC])"
    by code_simp
  have e: "utf8_encode (unat (0x20AC :: char32_t)) = [0xE2, 0x82, 0xAC]"
    by (simp add: utf8_encode_def)
  have f: "(0xF5 :: uint8_t) \<le> 0xF8" by simp
  note t = decode_emits_shortest_form_scalars [of "[0xE2, 0x82, 0xAC, 0xED, 0xA0, 0x80]" 5 "[0x20AC]",
      unfolded len, OF d]
  from t have 1: "unat (0x20AC :: char32_t) \<le> 0x10FFFF \<and>
      \<not> (0xD800 \<le> unat (0x20AC :: char32_t) \<and> unat (0x20AC :: char32_t) \<le> 0xDFFF)"
    by simp
  from t have 2: "prefix (concat (map (\<lambda>c. utf8_encode (unat c)) [0x20AC :: char32_t]))
      [0xE2, 0x82, 0xAC, 0xED, 0xA0, 0x80]"
    by (elim conjE)
  from t have 3: "length (concat (map (\<lambda>c. utf8_encode (unat c)) [0x20AC :: char32_t])) \<le> 5"
    by (elim conjE)
  from t f have 4: "subscript InitialStateOutOfBounds initial_state (uint (0xF8 :: uint8_t) - 0xC2)
      = Inr (0xF8, ERR)"
    by blast
  from d 1 e 2 3 f 4 show ?thesis unfolding len by blast
qed

section \<open>Truncated input\<close>

text \<open>
  C6. An input that ends in the middle of a sequence (valid sequences followed by a
  proper, non-empty beginning of the encoding of a scalar value) is reported as any
  other malformed input is, by the position alone: \<open>decode\<close> returns the position
  reached, which is the end of the input, having written the code points of the
  valid sequences and nothing for the cut one. In particular the lone leader
  \<^verbatim>\<open>0xF0\<close> gives position 1 and no code point.
\<close>

theorem truncated_sequence_stops_at_end:
  assumes "\<forall>u \<in> set vs. scalar_value u"
    and "scalar_value v" and "strict_prefix t (utf8_encode v)" and "t \<noteq> []"
  shows "decode (concat (map utf8_encode vs) @ t) 0 (length (concat (map utf8_encode vs) @ t)) []
           = Inr (length (concat (map utf8_encode vs) @ t), map of_nat vs) \<and>
         decode [0xF0] 0 1 [] = Inr (1, [])"
proof
  have "scan (concat (map utf8_encode vs) @ t)
      = (length (concat (map utf8_encode vs) @ t), vs)"
    by (simp add: scan_encode_all [OF assms(1)] scan_cut [OF assms(2-4)])
  then show "decode (concat (map utf8_encode vs) @ t) 0 (length (concat (map utf8_encode vs) @ t)) []
           = Inr (length (concat (map utf8_encode vs) @ t), map of_nat vs)"
    using decode_scan_all [of 0 "concat (map utf8_encode vs) @ t" "[]"] by simp
  show "decode [0xF0] 0 1 [] = Inr (1, [])" by code_simp
qed

text \<open>\<^verbatim>\<open>U+0041\<close> followed by the first two code units of \<^verbatim>\<open>U+10000\<close>.\<close>

theorem truncated_sequence_stops_at_end_witness:
  "scalar_value 0x41 \<and> scalar_value 0x10000 \<and>
   utf8_encode 0x41 = [0x41] \<and> utf8_encode 0x10000 = [0xF0, 0x90, 0x80, 0x80] \<and>
   strict_prefix [0xF0, 0x90] (utf8_encode 0x10000) \<and> [0xF0, 0x90 :: uint8_t] \<noteq> [] \<and>
   decode [0x41, 0xF0, 0x90] 0 3 [] = Inr (3, [0x41]) \<and>
   decode [0xF0] 0 1 [] = Inr (1, [])"
proof -
  have e1: "utf8_encode 0x41 = [0x41]" and e2: "utf8_encode 0x10000 = [0xF0, 0x90, 0x80, 0x80]"
    by (simp_all add: utf8_encode_def)
  have s: "scalar_value 0x41" "scalar_value 0x10000" by (simp_all add: scalar_value_def)
  have sp: "strict_prefix [0xF0, 0x90] (utf8_encode 0x10000)"
    by (simp add: e2 strict_prefix_def)
  have all: "\<forall>u \<in> set [0x41 :: nat]. scalar_value u" using s by simp
  have ne: "[0xF0, 0x90 :: uint8_t] \<noteq> []" by simp
  have cat: "concat (map utf8_encode [0x41]) @ [0xF0, 0x90] = [0x41, 0xF0, 0x90]"
    by (simp add: e1)
  have len: "length [0x41, 0xF0, 0x90 :: uint8_t] = 3" by simp
  have out: "map of_nat [0x41 :: nat] = [0x41 :: char32_t]" by simp
  from truncated_sequence_stops_at_end [OF all s(2) sp ne, unfolded cat len out]
  show ?thesis using s sp e1 e2 by simp
qed

section \<open>Table accesses\<close>

text \<open>
  C8. Every access to a lookup table that \<open>decode\<close> performs is within bounds. In the
  model each subscript outside its table, and each read outside the input, is a
  fault value that \<open>decode\<close> would return; it returns none, on any input. The indices
  are as the claim describes them: \<^verbatim>\<open>initial_state\<close> (62 entries) is subscripted with
  \<^verbatim>\<open>octet - 0xC2\<close> after both guards, so for an octet from \<^verbatim>\<open>0xC2\<close> to \<^verbatim>\<open>0xFF\<close>;
  \<^verbatim>\<open>octet_category\<close> (256 entries) with the value of a code unit; and
  \<^verbatim>\<open>state_transition\<close> (108 entries) with \<^verbatim>\<open>state + category\<close> where the state, being
  above \<^verbatim>\<open>ERR\<close>, is one of 24, 36, 48, 60, 72, 84 and 96 and the category is at most
  11, so the index is at most 107.
\<close>

theorem table_accesses_in_bounds:
  "(\<exists>p out. decode bs 0 (length bs) [] = Inr (p, out)) \<and>
   length initial_state = 62 \<and>
   (\<forall>octet :: uint8_t. \<not> octet < 0x80 \<and> \<not> octet < 0xC2 \<longrightarrow>
      0 \<le> uint octet - 0xC2 \<and> uint octet - 0xC2 < int (length initial_state)) \<and>
   length octet_category = 256 \<and>
   (\<forall>octet :: uint8_t. 0 \<le> uint octet \<and> uint octet < int (length octet_category)) \<and>
   length state_transition = 108 \<and>
   (\<forall>state category. state_value state > state_value ERR \<longrightarrow>
      state_value state \<in> {24, 36, 48, 60, 72, 84, 96} \<and>
      0 \<le> class_value category \<and> class_value category \<le> 11 \<and>
      0 \<le> state_value state + class_value category \<and>
      state_value state + class_value category \<le> 107 \<and>
      state_value state + class_value category < int (length state_transition))"
proof -
  have 1: "\<exists>p out. decode bs 0 (length bs) [] = Inr (p, out)"
    using decode_scan_all [of 0 bs "[]"] by simp
  have 2: "0 \<le> uint octet - 0xC2 \<and> uint octet - 0xC2 < int (length initial_state)"
    if "\<not> octet < 0x80 \<and> \<not> octet < 0xC2" for octet :: uint8_t
  proof -
    from that have "0xC2 \<le> uint octet" by (simp add: word_less_def)
    moreover have "uint octet < 256" using uint_lt2p [of octet] by simp
    ultimately show ?thesis by (simp add: length_initial_state)
  qed
  have 3: "0 \<le> uint octet \<and> uint octet < int (length octet_category)" for octet :: uint8_t
    using uint_lt2p [of octet] by (simp add: length_octet_category)
  have 4: "state_value state \<in> {24, 36, 48, 60, 72, 84, 96} \<and>
      0 \<le> class_value category \<and> class_value category \<le> 11 \<and>
      0 \<le> state_value state + class_value category \<and>
      state_value state + class_value category \<le> 107 \<and>
      state_value state + class_value category < int (length state_transition)"
    if "state_value state > state_value ERR" for state category
    using that by (cases state; cases category) (simp_all add: length_state_transition)
  from 1 2 3 4 show ?thesis
    by (simp only: length_initial_state length_octet_category length_state_transition) blast
qed

text \<open>The same for the encoding of the euro sign, the octet \<^verbatim>\<open>E2\<close>, and \<^verbatim>\<open>CS2\<close> with \<^verbatim>\<open>CR1\<close>.\<close>

theorem table_accesses_in_bounds_witness:
  "(\<exists>p out. decode [0xE2, 0x82, 0xAC] 0 (length [0xE2, 0x82, 0xAC :: uint8_t]) [] = Inr (p, out)) \<and>
   \<not> (0xE2 :: uint8_t) < 0x80 \<and> \<not> (0xE2 :: uint8_t) < 0xC2 \<and>
   0 \<le> uint (0xE2 :: uint8_t) - 0xC2 \<and> uint (0xE2 :: uint8_t) - 0xC2 < int (length initial_state) \<and>
   0 \<le> uint (0x82 :: uint8_t) \<and> uint (0x82 :: uint8_t) < int (length octet_category) \<and>
   state_value CS2 > state_value ERR \<and>
   state_value CS2 \<in> {24, 36, 48, 60, 72, 84, 96} \<and>
   0 \<le> class_value CR1 \<and> class_value CR1 \<le> 11 \<and>
   0 \<le> state_value CS2 + class_value CR1 \<and>
   state_value CS2 + class_value CR1 \<le> 107 \<and>
   state_value CS2 + class_value CR1 < int (length state_transition)"
proof -
  note t = table_accesses_in_bounds [of "[0xE2, 0x82, 0xAC]"]
  have g: "\<not> (0xE2 :: uint8_t) < 0x80 \<and> \<not> (0xE2 :: uint8_t) < 0xC2" by simp
  have l: "state_value CS2 > state_value ERR" by simp
  from t have 1: "\<exists>p out. decode [0xE2, 0x82, 0xAC] 0 (length [0xE2, 0x82, 0xAC :: uint8_t]) [] = Inr (p, out)"
    by (rule conjunct1)
  from t g have 2: "0 \<le> uint (0xE2 :: uint8_t) - 0xC2 \<and>
      uint (0xE2 :: uint8_t) - 0xC2 < int (length initial_state)"
    by blast
  from t have 3: "0 \<le> uint (0x82 :: uint8_t) \<and> uint (0x82 :: uint8_t) < int (length octet_category)"
    by blast
  from t l have 4: "state_value CS2 \<in> {24, 36, 48, 60, 72, 84, 96} \<and>
      0 \<le> class_value CR1 \<and> class_value CR1 \<le> 11 \<and>
      0 \<le> state_value CS2 + class_value CR1 \<and>
      state_value CS2 + class_value CR1 \<le> 107 \<and>
      state_value CS2 + class_value CR1 < int (length state_transition)"
    by blast
  from 1 g 2 3 l 4 show ?thesis by blast
qed

section \<open>The number of code points\<close>




end
